theory Spec2Isabelle
  imports Complex_Main
begin

section \<open>Data model of \<open>pkg/usagestats/reporter.go\<close>\<close>

text \<open>
  A Go \<open>time.Time\<close> is an instant; it is modelled as the number of nanoseconds since Go's
  zero time instant, so that \<open>IsZero\<close> is equality with \<open>0\<close>. A \<open>time.Duration\<close> is an
  \<open>int64\<close> count of nanoseconds; it is modelled as an \<open>int\<close> with the wrap-around and the
  saturation of the standard library written out.
\<close>

type_synonym time = int
type_synonym duration = int

text \<open>The struct literal of \<open>initLeader\<close> fixes the three fields of a seed.\<close>

record ClusterSeed =
  UID :: string
  PrometheusVersion :: string
  CreatedAt :: time

text \<open>
  Errors are values. \<open>ErrObjectNotFound\<close> is the one error for which the object client's
  \<open>IsObjectNotFoundErr\<close> answers true; \<open>MultiError\<close> is the aggregate of
  \<open>multierror.MultiError\<close>.
\<close>

datatype error =
    ErrObjectNotFound
  | ErrIO
  | ErrCorrupt
  | ErrStoreUnavailable
  | ErrCanceled
  | ErrSend nat
  | ErrTerminated nat
  | MultiError "error list"

definition IsObjectNotFoundErr :: "error \<Rightarrow> bool" where
  "IsObjectNotFoundErr err = (err = ErrObjectNotFound)"

text \<open>
  The value handed to the compare-and-swap callback is an \<open>interface{}\<close>: \<open>nil\<close>
  (\<open>None\<close>), a \<open>*ClusterSeed\<close>, or a value of some other dynamic type.
\<close>

datatype kvval = KSeed ClusterSeed | KOther

text \<open>
  The content of the object \<open>loki_cluster_seed.json\<close>: bytes that \<open>JSONCodec.Decode\<close>
  accepts, or bytes that it rejects.

  Modelled from the spec: \<open>JSONCodec\<close> is declared outside \<open>reporter.go\<close>; section 6 gives
  \<open>encode(ClusterSeed) \<rightarrow> bytes\<close> and \<open>decode(bytes) \<rightarrow> (ClusterSeed, err)\<close>, a decode
  failure being classified as corrupt.
\<close>

datatype blob = Encoded ClusterSeed | Garbage

definition JSONCodec_Encode :: "ClusterSeed \<Rightarrow> blob" where
  "JSONCodec_Encode seed = Encoded seed"

definition JSONCodec_Decode :: "blob \<Rightarrow> error + ClusterSeed" where
  "JSONCodec_Decode data = (case data of Encoded seed \<Rightarrow> Inr seed | Garbage \<Rightarrow> Inl ErrCorrupt)"

definition ClusterSeedFileName :: string where
  "ClusterSeedFileName = ''loki_cluster_seed.json''"

definition attemptNumber :: nat where
  "attemptNumber = 4"

definition seedKey :: string where
  "seedKey = ''usagestats_token''"

definition reportCheckInterval :: duration where
  "reportCheckInterval = 60000000000"

definition reportInterval :: duration where
  "reportInterval = 1 * 3600000000000"

section \<open>The external stores and the environment\<close>

text \<open>
  Every call that leaves the process is recorded with its result. The length of the record
  is the logical time at which the next call is issued.
\<close>

datatype call =
    CallCAS "ClusterSeed option" "error option"
  | CallGet "error + ClusterSeed"
  | CallPut ClusterSeed "error option"
  | CallDelete "error option"

record world =
  kv :: "kvval option"
  blob :: "blob option"
  calls :: "call list"

text \<open>
  What the process cannot control is read from the environment at the logical time of the
  observation: whether the context is cancelled, whether a store call fails transiently,
  the result of \<open>uuid.NewString()\<close>, of \<open>time.Now()\<close> and of \<open>build.GetVersion()\<close>.
\<close>

record env =
  ctxDone :: "nat \<Rightarrow> bool"
  fault :: "nat \<Rightarrow> bool"
  newUUID :: "nat \<Rightarrow> string"
  timeNow :: "nat \<Rightarrow> time"
  version :: string

definition clock :: "world \<Rightarrow> nat" where
  "clock w = length (calls w)"

definition logCall :: "call \<Rightarrow> world \<Rightarrow> world" where
  "logCall c w = w\<lparr>calls := calls w @ [c]\<rparr>"

subsection \<open>The compare-and-swap callback of \<open>initLeader\<close>\<close>

text \<open>
  The closure returns \<open>(out, retry, err)\<close> and assigns to the captured variable \<open>seed\<close>;
  the record carries the three results and the value of \<open>seed\<close> after the call.
\<close>

record cas_result =
  out :: "ClusterSeed option"
  retry :: bool
  cb_err :: "error option"
  seed_after :: ClusterSeed

definition cas_callback :: "ClusterSeed \<Rightarrow> kvval option \<Rightarrow> cas_result" where
  "cas_callback seed inp =
     (case inp of
        Some (KSeed kvSeed) \<Rightarrow>
          if UID kvSeed \<noteq> UID seed
          then \<lparr>out = None, retry = False, cb_err = None, seed_after = kvSeed\<rparr>
          else \<lparr>out = Some seed, retry = True, cb_err = None, seed_after = seed\<rparr>
      | _ \<Rightarrow> \<lparr>out = Some seed, retry = True, cb_err = None, seed_after = seed\<rparr>)"

text \<open>
  The key-value client (\<open>dskit/kv\<close>, outside the repository): \<open>CAS\<close> reads the key, calls
  the callback once on the current value and stores \<open>out\<close> unless it is \<open>nil\<close>; the
  read-modify-write is atomic. A failure of the primitive leaves the key as it is.
\<close>

definition CAS :: "env \<Rightarrow> (kvval option \<Rightarrow> cas_result) \<Rightarrow> world \<Rightarrow> (error + cas_result) \<times> world" where
  "CAS e f w =
     (if fault e (clock w)
      then (Inl ErrStoreUnavailable, logCall (CallCAS None (Some ErrStoreUnavailable)) w)
      else
        let r = f (kv w) in
        (case cb_err r of
           Some err \<Rightarrow> (Inl err, logCall (CallCAS None (Some err)) w)
         | None \<Rightarrow>
             (case out r of
                None \<Rightarrow> (Inr r, logCall (CallCAS None None) w)
              | Some v \<Rightarrow> (Inr r, logCall (CallCAS (Some v) None) (w\<lparr>kv := Some (KSeed v)\<rparr>)))))"

subsection \<open>The object client\<close>

text \<open>
  The object client (\<open>chunk.ObjectClient\<close>, outside the repository) holds at most one
  object under \<open>ClusterSeedFileName\<close>. A transient failure is an error other than
  not-found and leaves the object as it is.
\<close>

definition GetObject :: "env \<Rightarrow> world \<Rightarrow> error + blob" where
  "GetObject e w =
     (if fault e (clock w) then Inl ErrIO
      else (case blob w of None \<Rightarrow> Inl ErrObjectNotFound | Some data \<Rightarrow> Inr data))"

definition PutObject :: "env \<Rightarrow> blob \<Rightarrow> world \<Rightarrow> error option \<times> world" where
  "PutObject e data w =
     (if fault e (clock w) then (Some ErrIO, w) else (None, w\<lparr>blob := Some data\<rparr>))"

definition DeleteObject :: "env \<Rightarrow> world \<Rightarrow> error option \<times> world" where
  "DeleteObject e w =
     (if fault e (clock w)
      then (Some ErrIO, logCall (CallDelete (Some ErrIO)) w)
      else (None, logCall (CallDelete None) (w\<lparr>blob := None\<rparr>)))"

text \<open>\<open>readSeedFile\<close>: get the object, read it, decode it.\<close>

definition readSeedFile :: "env \<Rightarrow> world \<Rightarrow> (error + ClusterSeed) \<times> world" where
  "readSeedFile e w =
     (let r = (case GetObject e w of
                 Inl err \<Rightarrow> Inl err
               | Inr data \<Rightarrow> JSONCodec_Decode data)
      in (r, logCall (CallGet r) w))"

text \<open>\<open>writeSeedFile\<close>: encode the seed and put the object.\<close>

definition writeSeedFile :: "env \<Rightarrow> ClusterSeed \<Rightarrow> world \<Rightarrow> error option \<times> world" where
  "writeSeedFile e seed w =
     (case PutObject e (JSONCodec_Encode seed) w of
        (r, w') \<Rightarrow> (r, logCall (CallPut seed r) w'))"

subsection \<open>Backoff\<close>

text \<open>
  The retry policy (\<open>dskit/backoff\<close>, outside the repository; section 4.1 of the
  specification): \<open>Ongoing\<close> permits another attempt while the context is live and the
  cap on retries, when there is one, is not reached; \<open>Wait\<close> counts one retry; \<open>Err\<close>
  says why retrying stopped.
\<close>

record backoff_Config =
  MinBackoff :: duration
  MaxBackoff :: duration
  MaxRetries :: nat

record backoff =
  cfg :: backoff_Config
  numRetries :: nat

definition time_Second :: duration where
  "time_Second = 1000000000"

definition time_Minute :: duration where
  "time_Minute = 60 * time_Second"

definition backoff_New :: "backoff_Config \<Rightarrow> backoff" where
  "backoff_New c = \<lparr>cfg = c, numRetries = 0\<rparr>"

definition Ongoing :: "bool \<Rightarrow> backoff \<Rightarrow> bool" where
  "Ongoing cancelled b =
     (\<not> cancelled \<and> (MaxRetries (cfg b) = 0 \<or> numRetries b < MaxRetries (cfg b)))"

definition backoff_Err :: "bool \<Rightarrow> backoff \<Rightarrow> error option" where
  "backoff_Err cancelled b =
     (if cancelled then Some ErrCanceled
      else if MaxRetries (cfg b) \<noteq> 0 \<and> MaxRetries (cfg b) \<le> numRetries b
      then Some (ErrTerminated (numRetries b))
      else None)"

definition Wait :: "backoff \<Rightarrow> backoff" where
  "Wait b = b\<lparr>numRetries := numRetries b + 1\<rparr>"

section \<open>Seed resolution\<close>

subsection \<open>\<open>fetchSeed\<close>\<close>

text \<open>
  The loop \<open>for backoff.Ongoing() { ... }\<close> has no bound: it is given fuel, one unit for
  each iteration, and \<open>None\<close> says that the loop is still running when the fuel is spent.
  The result is Go's pair \<open>(*ClusterSeed, error)\<close>. The loop never calls \<open>Wait\<close>.
\<close>

definition fetchSeed_config :: backoff_Config where
  "fetchSeed_config = \<lparr>MinBackoff = time_Second, MaxBackoff = time_Minute, MaxRetries = 0\<rparr>"

fun fetchSeed_loop ::
  "nat \<Rightarrow> env \<Rightarrow> (error \<Rightarrow> bool) option \<Rightarrow> backoff \<Rightarrow> nat \<Rightarrow> world
     \<Rightarrow> (ClusterSeed option \<times> error option) option \<times> world" where
  "fetchSeed_loop 0 e continueFn b readingErr w = (None, w)"
| "fetchSeed_loop (Suc fuel) e continueFn b readingErr w =
     (if Ongoing (ctxDone e (clock w)) b then
        (case readSeedFile e w of
           (Inl err, w1) \<Rightarrow>
             let readingErr1 = (if \<not> IsObjectNotFoundErr err then readingErr + 1 else readingErr);
                 (readingErr2, w2) =
                   (if readingErr1 > attemptNumber
                    then (0, snd (DeleteObject e w1))
                    else (readingErr1, w1))
             in if (case continueFn of None \<Rightarrow> True | Some f \<Rightarrow> f err)
                then fetchSeed_loop fuel e continueFn b readingErr2 w2
                else (Some (None, Some err), w2)
         | (Inr seed, w1) \<Rightarrow> (Some (Some seed, None), w1))
      else (Some (None, backoff_Err (ctxDone e (clock w)) b), w))"

definition fetchSeed ::
  "nat \<Rightarrow> env \<Rightarrow> (error \<Rightarrow> bool) option \<Rightarrow> world
     \<Rightarrow> (ClusterSeed option \<times> error option) option \<times> world" where
  "fetchSeed fuel e continueFn w = fetchSeed_loop fuel e continueFn (backoff_New fetchSeed_config) 0 w"

subsection \<open>\<open>initLeader\<close>\<close>

text \<open>
  The loop of \<open>initLeader\<close> has an empty condition (\<open>backoff.Ongoing()\<close> stands in the post
  statement, where its result is dropped): it ends only by \<open>return\<close>. Each iteration
  creates a new candidate seed.
\<close>

text \<open>The candidate seed that an iteration creates.\<close>

definition newSeed :: "env \<Rightarrow> world \<Rightarrow> ClusterSeed" where
  "newSeed e w = \<lparr>UID = newUUID e (clock w), PrometheusVersion = version e,
                  CreatedAt = timeNow e (clock w)\<rparr>"

text \<open>The \<open>continueFn\<close> that \<open>initLeader\<close> passes to \<open>fetchSeed\<close>.\<close>

definition retryUnlessNotFound :: "error \<Rightarrow> bool" where
  "retryUnlessNotFound err = (\<not> IsObjectNotFoundErr err)"

fun initLeader_loop :: "nat \<Rightarrow> env \<Rightarrow> world \<Rightarrow> ClusterSeed option option \<times> world" where
  "initLeader_loop 0 e w = (None, w)"
| "initLeader_loop (Suc fuel) e w =
     (let seed = newSeed e w in
      case CAS e (cas_callback seed) w of
        (Inl err, w1) \<Rightarrow> initLeader_loop fuel e w1
      | (Inr r, w1) \<Rightarrow>
          (case fetchSeed fuel e (Some retryUnlessNotFound) w1 of
             (None, w2) \<Rightarrow> (None, w2)
           | (Some (remoteSeed, Some err), w2) \<Rightarrow>
               if IsObjectNotFoundErr err then
                 (case writeSeedFile e (seed_after r) w2 of
                    (Some err', w3) \<Rightarrow> initLeader_loop fuel e w3
                  | (None, w3) \<Rightarrow> (Some (Some (seed_after r)), w3))
               else initLeader_loop fuel e w2
           | (Some (remoteSeed, None), w2) \<Rightarrow> (Some remoteSeed, w2)))"

definition initLeader :: "nat \<Rightarrow> env \<Rightarrow> world \<Rightarrow> ClusterSeed option option \<times> world" where
  "initLeader fuel e w = initLeader_loop fuel e w"

subsection \<open>\<open>init\<close>\<close>

record Config =
  Disabled :: bool
  Leader :: bool

record Reporter =
  conf :: Config
  cluster :: "ClusterSeed option"
  lastReport :: time

text \<open>
  \<open>init\<close> stores what the resolution returned, a \<open>nil\<close> seed included; the error of
  \<open>fetchSeed\<close> is dropped. \<open>None\<close> says that the resolution is still running.
\<close>

definition init :: "nat \<Rightarrow> env \<Rightarrow> Reporter \<Rightarrow> world \<Rightarrow> Reporter option \<times> world" where
  "init fuel e rep w =
     (if Leader (conf rep) then
        (case initLeader fuel e w of
           (None, w') \<Rightarrow> (None, w')
         | (Some seed, w') \<Rightarrow> (Some (rep\<lparr>cluster := seed\<rparr>), w'))
      else
        (case fetchSeed fuel e None w of
           (None, w') \<Rightarrow> (None, w')
         | (Some (seed, err), w') \<Rightarrow> (Some (rep\<lparr>cluster := seed\<rparr>), w')))"

section \<open>Several leaders on shared stores\<close>

text \<open>
  To let several leader processes run \<open>initLeader\<close> against the same stores, the
  function is cut at its store calls: a process is at the compare-and-swap at the top of
  the loop, at a read in \<open>fetchSeed\<close> (with its local \<open>seed\<close> and \<open>readingErr\<close>), at the
  delete of a corrupted object (with the error of the read before), at the write of the
  seed, or it has returned.
\<close>

datatype pc =
    AtCAS
  | AtRead ClusterSeed nat
  | AtDelete ClusterSeed error
  | AtWrite ClusterSeed
  | Done "ClusterSeed option"

text \<open>
  Where \<open>initLeader\<close> goes when \<open>fetchSeed\<close> returns \<open>(remoteSeed, err)\<close>: to the write on a
  not-found error, back to the top of the loop on another error, and to \<open>return remoteSeed\<close>
  without error.
\<close>

definition afterFetch :: "ClusterSeed \<Rightarrow> ClusterSeed option \<times> error option \<Rightarrow> pc" where
  "afterFetch seed res =
     (case res of
        (remoteSeed, Some err) \<Rightarrow> if IsObjectNotFoundErr err then AtWrite seed else AtCAS
      | (remoteSeed, None) \<Rightarrow> Done remoteSeed)"

text \<open>Where \<open>fetchSeed\<close> goes after a failed read, by \<open>continueFn\<close>.\<close>

definition afterReadError :: "ClusterSeed \<Rightarrow> error \<Rightarrow> nat \<Rightarrow> pc" where
  "afterReadError seed err readingErr =
     (if retryUnlessNotFound err then AtRead seed readingErr
      else afterFetch seed (None, Some err))"

text \<open>One store call of one process, with the control flow up to the next store call.\<close>

definition leader_step :: "env \<Rightarrow> pc \<Rightarrow> world \<Rightarrow> pc \<times> world" where
  "leader_step e c w =
     (case c of
        AtCAS \<Rightarrow>
          (case CAS e (cas_callback (newSeed e w)) w of
             (Inl err, w1) \<Rightarrow> (AtCAS, w1)
           | (Inr r, w1) \<Rightarrow> (AtRead (seed_after r) 0, w1))
      | AtRead seed readingErr \<Rightarrow>
          if Ongoing (ctxDone e (clock w)) (backoff_New fetchSeed_config) then
            (case readSeedFile e w of
               (Inl err, w1) \<Rightarrow>
                 let readingErr1 = (if \<not> IsObjectNotFoundErr err then readingErr + 1 else readingErr)
                 in if readingErr1 > attemptNumber
                    then (AtDelete seed err, w1)
                    else (afterReadError seed err readingErr1, w1)
             | (Inr remoteSeed, w1) \<Rightarrow> (afterFetch seed (Some remoteSeed, None), w1))
          else (afterFetch seed (None, backoff_Err (ctxDone e (clock w)) (backoff_New fetchSeed_config)), w)
      | AtDelete seed err \<Rightarrow> (afterReadError seed err 0, snd (DeleteObject e w))
      | AtWrite seed \<Rightarrow>
          (case writeSeedFile e seed w of
             (Some err, w3) \<Rightarrow> (AtCAS, w3)
           | (None, w3) \<Rightarrow> (Done (Some seed), w3))
      | Done r \<Rightarrow> (Done r, w))"

text \<open>One process alone, for a number of steps.\<close>

fun run :: "nat \<Rightarrow> env \<Rightarrow> pc \<times> world \<Rightarrow> pc \<times> world" where
  "run 0 e x = x"
| "run (Suc n) e x = run n e (leader_step e (fst x) (snd x))"

text \<open>
  The system: the control state of every process, the shared stores, and the calls issued so
  far, each with the process that issued it. A schedule is the list of the processes that
  take the successive steps.
\<close>

record system =
  pcs :: "nat \<Rightarrow> pc"
  shared :: world
  trace :: "(nat \<times> call) list"

definition sys_step :: "env \<Rightarrow> nat \<Rightarrow> system \<Rightarrow> system" where
  "sys_step e p s =
     (case leader_step e (pcs s p) (shared s) of
        (c', w') \<Rightarrow>
          \<lparr>pcs = (pcs s)(p := c'), shared = w',
            trace = trace s @ map (Pair p) (drop (length (calls (shared s))) (calls w'))\<rparr>)"

fun exec :: "env \<Rightarrow> nat list \<Rightarrow> system \<Rightarrow> system" where
  "exec e [] s = s"
| "exec e (p # ps) s = exec e ps (sys_step e p s)"

definition start :: "world \<Rightarrow> system" where
  "start w = \<lparr>pcs = (\<lambda>_. AtCAS), shared = w, trace = []\<rparr>"

subsection \<open>What is observed of a run\<close>

definition returned :: "pc \<Rightarrow> bool" where
  "returned c = (case c of Done r \<Rightarrow> True | _ \<Rightarrow> False)"

definition own :: "nat \<Rightarrow> (nat \<times> call) list \<Rightarrow> call list" where
  "own p tr = map snd (filter (\<lambda>x. fst x = p) tr)"

definition is_put :: "call \<Rightarrow> bool" where
  "is_put c = (case c of CallPut seed r \<Rightarrow> True | _ \<Rightarrow> False)"

definition is_election :: "call \<Rightarrow> bool" where
  "is_election c = (case c of CallCAS (Some v) r \<Rightarrow> True | _ \<Rightarrow> False)"

text \<open>
  In the calls of one process, every write of the object comes directly after a read that
  returned not-found (\<open>prev\<close> is the call before the list).
\<close>

fun puts_follow_notfound :: "call option \<Rightarrow> call list \<Rightarrow> bool" where
  "puts_follow_notfound prev [] = True"
| "puts_follow_notfound prev (c # cs) =
     ((is_put c \<longrightarrow> prev = Some (CallGet (Inl ErrObjectNotFound)))
      \<and> puts_follow_notfound (Some c) cs)"

subsection \<open>Invariants of the runs from absent key and absent object\<close>

text \<open>
  A process past the compare-and-swap holds the seed that the key holds; \<open>readingErr\<close>
  stays within \<open>attemptNumber\<close> between iterations; a delete follows an error other than
  not-found.
\<close>

definition pc_ok :: "world \<Rightarrow> pc \<Rightarrow> bool" where
  "pc_ok w c =
     (case c of
        AtCAS \<Rightarrow> True
      | AtRead seed n \<Rightarrow> kv w = Some (KSeed seed) \<and> n \<le> attemptNumber
      | AtDelete seed err \<Rightarrow> kv w = Some (KSeed seed) \<and> err \<noteq> ErrObjectNotFound
      | AtWrite seed \<Rightarrow> kv w = Some (KSeed seed)
      | Done r \<Rightarrow> (\<exists>k. r = Some k \<and> kv w = Some (KSeed k)))"

text \<open>The key holds nothing, or a seed whose UID was generated earlier.\<close>

definition kv_ok :: "env \<Rightarrow> world \<Rightarrow> bool" where
  "kv_ok e w = (\<forall>v. kv w = Some v \<longrightarrow> (\<exists>k t. v = KSeed k \<and> t < clock w \<and> UID k = newUUID e t))"

text \<open>The object, when present, decodes to the seed that the key holds.\<close>

definition blob_ok :: "world \<Rightarrow> bool" where
  "blob_ok w = (\<forall>b. blob w = Some b \<longrightarrow> (\<exists>k. b = Encoded k \<and> kv w = Some (KSeed k)))"

definition core :: "env \<Rightarrow> nat set \<Rightarrow> system \<Rightarrow> bool" where
  "core e P s =
     (kv_ok e (shared s) \<and> (\<forall>p. pc_ok (shared s) (pcs s p)) \<and> blob_ok (shared s)
      \<and> (blob (shared s) = None \<longrightarrow> (\<exists>q\<in>P. \<not> returned (pcs s q))))"

text \<open>Every write ever issued carries the seed that the key holds.\<close>

definition put_ok :: "system \<Rightarrow> bool" where
  "put_ok s = (\<forall>q seed r. (q, CallPut seed r) \<in> set (trace s) \<longrightarrow> kv (shared s) = Some (KSeed seed))"

text \<open>The key was written by exactly one compare-and-swap, or it is absent and by none.\<close>

definition elect_ok :: "system \<Rightarrow> bool" where
  "elect_ok s =
     (filter is_election (map snd (trace s))
        = (case kv (shared s) of Some (KSeed k) \<Rightarrow> [CallCAS (Some k) None] | _ \<Rightarrow> []))"

definition follow_ok :: "system \<Rightarrow> bool" where
  "follow_ok s =
     (\<forall>p. puts_follow_notfound None (own p (trace s))
          \<and> (\<forall>seed. pcs s p = AtWrite seed \<longrightarrow>
                own p (trace s) \<noteq> [] \<and> last (own p (trace s)) = CallGet (Inl ErrObjectNotFound)))"

definition leaders_inv :: "env \<Rightarrow> nat set \<Rightarrow> system \<Rightarrow> bool" where
  "leaders_inv e P s = (core e P s \<and> put_ok s \<and> elect_ok s \<and> follow_ok s)"

section \<open>Durations, instants and \<open>float64\<close>\<close>

definition minInt64 :: int where
  "minInt64 = - (2 ^ 63)"

definition maxInt64 :: int where
  "maxInt64 = 2 ^ 63 - 1"

text \<open>Arithmetic on \<open>int64\<close> wraps around.\<close>

definition int64_wrap :: "int \<Rightarrow> int" where
  "int64_wrap x = (x + 2 ^ 63) mod 2 ^ 64 - 2 ^ 63"

definition int64_mul :: "int \<Rightarrow> int \<Rightarrow> int" where
  "int64_mul a b = int64_wrap (a * b)"

definition int64_neg :: "int \<Rightarrow> int" where
  "int64_neg a = int64_wrap (- a)"

text \<open>
  The standard library's \<open>Time.Sub\<close> returns the difference as a \<open>Duration\<close> and
  saturates at the largest and the smallest \<open>int64\<close>; \<open>Time.Add\<close>, \<open>Time.Equal\<close> and
  \<open>Time.IsZero\<close> are exact on instants.
\<close>

definition time_Sub :: "time \<Rightarrow> time \<Rightarrow> duration" where
  "time_Sub t u =
     (let d = t - u in if maxInt64 < d then maxInt64 else if d < minInt64 then minInt64 else d)"

definition time_Add :: "time \<Rightarrow> duration \<Rightarrow> time" where
  "time_Add t d = t + d"

definition time_Equal :: "time \<Rightarrow> time \<Rightarrow> bool" where
  "time_Equal t u = (t = u)"

definition time_IsZero :: "time \<Rightarrow> bool" where
  "time_IsZero t = (t = 0)"

text \<open>
  A finite \<open>float64\<close> is a rational with a significand of 53 bits. \<open>round_binary64\<close> is
  the rounding of IEEE 754 binary64 arithmetic, to the nearest value and to the even
  significand on a tie, for the normal range; the quotients of this program, of two
  non-zero values of magnitude between \<open>1\<close> and \<open>2 ^ 63\<close>, lie in it.
\<close>

text \<open>The number of binary digits of a positive integer.\<close>

function bitlen :: "int \<Rightarrow> int" where
  "bitlen n = (if n \<le> 0 then 0 else 1 + bitlen (n div 2))"
  by pat_completeness auto
termination
  by (relation "measure nat") auto

declare bitlen.simps [simp del]

text \<open>\<open>ilog2 x\<close> is the integer \<open>k\<close> with \<open>2 ^ k \<le> x < 2 ^ (k + 1)\<close>, for positive \<open>x\<close>.\<close>

definition ilog2 :: "rat \<Rightarrow> int" where
  "ilog2 x =
     (let (p, q) = quotient_of x;
          k = bitlen p - bitlen q
      in if 2 powi k \<le> x then k else k - 1)"

definition round_half_even :: "rat \<Rightarrow> int" where
  "round_half_even r =
     (let f = \<lfloor>r\<rfloor>; d = r - of_int f
      in if d < 1 / 2 then f
         else if 1 / 2 < d then f + 1
         else if even f then f else f + 1)"

definition round_binary64 :: "rat \<Rightarrow> rat" where
  "round_binary64 x =
     (if x = 0 then 0
      else let e = ilog2 \<bar>x\<bar> - 52;
               m = round_half_even (\<bar>x\<bar> / 2 powi e)
           in sgn x * of_int m * 2 powi e)"

text \<open>The conversion \<open>float64(d)\<close> of an \<open>int64\<close>.\<close>

definition float64_of_int64 :: "int \<Rightarrow> rat" where
  "float64_of_int64 n = round_binary64 (of_int n)"

text \<open>
  The quotient of two finite \<open>float64\<close>; \<open>None\<close> stands for the infinities and the NaN
  that a zero divisor gives.
\<close>

definition float64_div :: "rat \<Rightarrow> rat \<Rightarrow> rat option" where
  "float64_div a b = (if b = 0 then None else Some (round_binary64 (a / b)))"

definition math_Ceil :: "rat \<Rightarrow> rat" where
  "math_Ceil x = of_int \<lceil>x\<rceil>"

text \<open>
  The conversion \<open>time.Duration(x)\<close> of a \<open>float64\<close> drops the fraction; the language
  leaves the result open when the value does not fit the \<open>int64\<close> (\<open>None\<close>).
\<close>

definition int64_of_float64 :: "rat \<Rightarrow> int option" where
  "int64_of_float64 x =
     (let n = (if 0 \<le> x then \<lfloor>x\<rfloor> else \<lceil>x\<rceil>)
      in if minInt64 \<le> n \<and> n \<le> maxInt64 then Some n else None)"

section \<open>The schedule\<close>

text \<open>
  \<open>nextReport\<close>:
  \<open>createdAt.Add(time.Duration(math.Ceil(float64(now.Sub(createdAt))/float64(interval))) * interval)\<close>.
\<close>

definition nextReport :: "duration \<Rightarrow> time \<Rightarrow> time \<Rightarrow> time option" where
  "nextReport interval createdAt now =
     (case float64_div (float64_of_int64 (time_Sub now createdAt)) (float64_of_int64 interval) of
        None \<Rightarrow> None
      | Some q \<Rightarrow>
          (case int64_of_float64 (math_Ceil q) of
             None \<Rightarrow> None
           | Some k \<Rightarrow> Some (time_Add createdAt (int64_mul k interval))))"

section \<open>Reporting\<close>

text \<open>
  \<open>sendReport\<close> is declared outside \<open>reporter.go\<close> and reaches the network: \<open>send n\<close>
  is the result of the call made after \<open>n\<close> failed ones, and \<open>cancelled n\<close> says whether
  the context is cancelled when \<open>Ongoing\<close> is asked after \<open>n\<close> failed calls.
  \<open>multierror_Err\<close> is \<open>MultiError.Err\<close>: \<open>nil\<close> when nothing was added.
\<close>

definition multierror_Err :: "error list \<Rightarrow> error option" where
  "multierror_Err errs = (if errs = [] then None else Some (MultiError errs))"

definition reportUsage_config :: backoff_Config where
  "reportUsage_config = \<lparr>MinBackoff = time_Second, MaxBackoff = 30 * time_Second, MaxRetries = 5\<rparr>"

text \<open>
  The loop of \<open>reportUsage\<close>, from the state in which \<open>n\<close> retries are counted and
  \<open>errs\<close> are collected. It returns the error and the number of calls of \<open>sendReport\<close>.
\<close>

function reportUsage_loop ::
  "(nat \<Rightarrow> bool) \<Rightarrow> (nat \<Rightarrow> error option) \<Rightarrow> nat \<Rightarrow> error list \<Rightarrow> error option \<times> nat" where
  "reportUsage_loop cancelled send n errs =
     (let b = \<lparr>cfg = reportUsage_config, numRetries = n\<rparr> in
      if Ongoing (cancelled n) b then
        (case send n of
           Some err \<Rightarrow> reportUsage_loop cancelled send (numRetries (Wait b)) (errs @ [err])
         | None \<Rightarrow> (None, Suc n))
      else (multierror_Err errs, n))"
  by pat_completeness auto
termination
  by (relation "measure (\<lambda>(cancelled, send, n, errs). 5 - n)")
     (auto simp: Ongoing_def Wait_def reportUsage_config_def)

declare reportUsage_loop.simps [simp del]

definition reportUsage :: "(nat \<Rightarrow> bool) \<Rightarrow> (nat \<Rightarrow> error option) \<Rightarrow> error option" where
  "reportUsage cancelled send = fst (reportUsage_loop cancelled send 0 [])"

definition reportUsage_calls :: "(nat \<Rightarrow> bool) \<Rightarrow> (nat \<Rightarrow> error option) \<Rightarrow> nat" where
  "reportUsage_calls cancelled send = snd (reportUsage_loop cancelled send 0 [])"

subsection \<open>\<open>running\<close>\<close>

text \<open>
  One iteration of \<open>select\<close> takes one event: the ticker fired, with the instant that
  \<open>time.Now()\<close> returns and the environment of the sends of this tick, or the context is
  done. The loop state is the reporter and the local \<open>next\<close>; \<open>reports\<close> records each
  call of \<open>reportUsage\<close>, with its interval and its result.
\<close>

datatype select_event = TickerC time "nat \<Rightarrow> bool" "nat \<Rightarrow> error option" | CtxDone

record loop_state =
  rep :: Reporter
  next_t :: time
  reports :: "(time \<times> error option) list"

definition onTick :: "loop_state \<Rightarrow> time \<Rightarrow> (nat \<Rightarrow> bool) \<Rightarrow> (nat \<Rightarrow> error option) \<Rightarrow> loop_state" where
  "onTick s now cancelled send =
     (if \<not> time_Equal (next_t s) now \<and> time_Sub now (lastReport (rep s)) < reportInterval
      then s
      else
        (case reportUsage cancelled send of
           Some err \<Rightarrow> s\<lparr>reports := reports s @ [(next_t s, Some err)]\<rparr>
         | None \<Rightarrow>
             s\<lparr>rep := (rep s)\<lparr>lastReport := next_t s\<rparr>,
               next_t := time_Add (next_t s) reportInterval,
               reports := reports s @ [(next_t s, None)]\<rparr>))"

text \<open>
  How a run of \<open>running\<close> over finitely many events stands: the seed resolution has not
  returned; the read of \<open>rep.cluster.CreatedAt\<close> hit a \<open>nil\<close> pointer; the conversion
  in \<open>nextReport\<close> was left open by the language; the function returned \<open>ctx.Err()\<close>;
  or the loop waits in \<open>select\<close>.
\<close>

datatype outcome =
    Initialising
  | NilDereference
  | Unspecified
  | Returned error loop_state
  | Selecting loop_state

fun running_loop :: "loop_state \<Rightarrow> select_event list \<Rightarrow> outcome" where
  "running_loop s [] = Selecting s"
| "running_loop s (CtxDone # evs) = Returned ErrCanceled s"
| "running_loop s (TickerC now cancelled send # evs) = running_loop (onTick s now cancelled send) evs"

definition running :: "nat \<Rightarrow> env \<Rightarrow> Reporter \<Rightarrow> world \<Rightarrow> select_event list \<Rightarrow> outcome \<times> world" where
  "running fuel e r w evs =
     (case init fuel e r w of
        (None, w') \<Rightarrow> (Initialising, w')
      | (Some r', w') \<Rightarrow>
          (case cluster r' of
             None \<Rightarrow> (NilDereference, w')
           | Some c \<Rightarrow>
               (case nextReport reportInterval (CreatedAt c) (timeNow e (clock w')) of
                  None \<Rightarrow> (Unspecified, w')
                | Some nx \<Rightarrow>
                    let r'' = (if time_IsZero (lastReport r')
                               then r'\<lparr>lastReport := time_Add nx (int64_neg reportInterval)\<rparr>
                               else r')
                    in (running_loop \<lparr>rep = r'', next_t = nx, reports = []\<rparr> evs, w'))))"

section \<open>Properties of the stores\<close>

lemma clock_logCall [simp]: "clock (logCall c w) = Suc (clock w)"
  by (simp add: clock_def logCall_def)

lemma kv_logCall [simp]: "kv (logCall c w) = kv w"
  by (simp add: logCall_def)

lemma blob_logCall [simp]: "blob (logCall c w) = blob w"
  by (simp add: logCall_def)

lemma calls_logCall [simp]: "calls (logCall c w) = calls w @ [c]"
  by (simp add: logCall_def)

lemma CAS_same_candidate:
  assumes "kv w = Some (KSeed seed)" and "\<not> fault e (clock w)"
  shows "CAS e (cas_callback seed) w =
           (Inr \<lparr>out = Some seed, retry = True, cb_err = None, seed_after = seed\<rparr>,
            logCall (CallCAS (Some seed) None) w)"
proof -
  have "w\<lparr>kv := Some (KSeed seed)\<rparr> = w"
    using assms(1) by simp
  then show ?thesis
    using assms by (simp add: CAS_def cas_callback_def)
qed

lemma CAS_absent:
  assumes "kv w = None" and "\<not> fault e (clock w)"
  shows "CAS e (cas_callback seed) w =
           (Inr \<lparr>out = Some seed, retry = True, cb_err = None, seed_after = seed\<rparr>,
            logCall (CallCAS (Some seed) None) (w\<lparr>kv := Some (KSeed seed)\<rparr>))"
  using assms by (simp add: CAS_def cas_callback_def)

lemma CAS_other_uid:
  assumes "kv w = Some (KSeed s)" and "UID s \<noteq> UID seed" and "\<not> fault e (clock w)"
  shows "CAS e (cas_callback seed) w =
           (Inr \<lparr>out = None, retry = False, cb_err = None, seed_after = s\<rparr>,
            logCall (CallCAS None None) w)"
  using assms by (simp add: CAS_def cas_callback_def)

lemma readSeedFile_found:
  assumes "blob w = Some (Encoded b)" and "\<not> fault e (clock w)"
  shows "readSeedFile e w = (Inr b, logCall (CallGet (Inr b)) w)"
  using assms by (simp add: readSeedFile_def GetObject_def JSONCodec_Decode_def Let_def)

lemma fetchSeed_found:
  assumes "blob w = Some (Encoded b)" and "\<not> fault e (clock w)" and "\<not> ctxDone e (clock w)"
  shows "fetchSeed (Suc fuel) e continueFn w = (Some (Some b, None), logCall (CallGet (Inr b)) w)"
  using assms
  by (simp add: fetchSeed_def readSeedFile_found Ongoing_def backoff_New_def fetchSeed_config_def)

lemma fetchSeed_cancelled:
  assumes "ctxDone e (clock w)"
  shows "fetchSeed (Suc fuel) e continueFn w = (Some (None, Some ErrCanceled), w)"
  using assms by (simp add: fetchSeed_def Ongoing_def backoff_Err_def)

section \<open>The election callback\<close>

text \<open>
  C10. In the compare-and-swap callback, a stored value that is present but is not a
  \<open>ClusterSeed\<close>, or that is a seed with the candidate's own UID, makes the callback
  propose the local candidate and request the write, which overwrites the stored value;
  the stored value is kept exactly when it is a \<open>ClusterSeed\<close> whose UID differs from
  the candidate's.
\<close>

theorem cas_callback_overwrites_unless_other_uid:
  "(inp = Some KOther \<or> (\<exists>kvSeed. inp = Some (KSeed kvSeed) \<and> UID kvSeed = UID seed)
      \<longrightarrow> cas_callback seed inp = \<lparr>out = Some seed, retry = True, cb_err = None, seed_after = seed\<rparr>
        \<and> (\<not> fault e (clock w) \<and> kv w = inp
             \<longrightarrow> kv (snd (CAS e (cas_callback seed) w)) = Some (KSeed seed)))
   \<and> (out (cas_callback seed inp) = None
        \<longleftrightarrow> (\<exists>kvSeed. inp = Some (KSeed kvSeed) \<and> UID kvSeed \<noteq> UID seed))"
  by (auto simp: cas_callback_def CAS_def split: option.splits kvval.splits)

theorem cas_callback_overwrites_unless_other_uid_witness:
  "cas_callback \<lparr>UID = ''xyz'', PrometheusVersion = ''v'', CreatedAt = 5\<rparr>
       (Some (KSeed \<lparr>UID = ''xyz'', PrometheusVersion = ''old'', CreatedAt = 1\<rparr>))
     = \<lparr>out = Some \<lparr>UID = ''xyz'', PrometheusVersion = ''v'', CreatedAt = 5\<rparr>, retry = True,
        cb_err = None, seed_after = \<lparr>UID = ''xyz'', PrometheusVersion = ''v'', CreatedAt = 5\<rparr>\<rparr>
   \<and> kv (snd (CAS \<lparr>ctxDone = (\<lambda>_. False), fault = (\<lambda>_. False), newUUID = (\<lambda>_. ''u''),
                     timeNow = (\<lambda>_. 0), version = ''v''\<rparr>
              (cas_callback \<lparr>UID = ''xyz'', PrometheusVersion = ''v'', CreatedAt = 5\<rparr>)
              \<lparr>kv = Some KOther, blob = None, calls = []\<rparr>))
     = Some (KSeed \<lparr>UID = ''xyz'', PrometheusVersion = ''v'', CreatedAt = 5\<rparr>)
   \<and> out (cas_callback \<lparr>UID = ''xyz'', PrometheusVersion = ''v'', CreatedAt = 5\<rparr>
            (Some (KSeed \<lparr>UID = ''abc'', PrometheusVersion = ''old'', CreatedAt = 1\<rparr>))) = None"
  using cas_callback_overwrites_unless_other_uid
    [of "Some (KSeed \<lparr>UID = ''xyz'', PrometheusVersion = ''old'', CreatedAt = 1\<rparr>)"
        "\<lparr>UID = ''xyz'', PrometheusVersion = ''v'', CreatedAt = 5\<rparr>"
        "\<lparr>ctxDone = (\<lambda>_. False), fault = (\<lambda>_. False), newUUID = (\<lambda>_. ''u''),
          timeNow = (\<lambda>_. 0), version = ''v''\<rparr>"
        "\<lparr>kv = Some KOther, blob = None, calls = []\<rparr>"]
    cas_callback_overwrites_unless_other_uid
    [of "Some KOther"
        "\<lparr>UID = ''xyz'', PrometheusVersion = ''v'', CreatedAt = 5\<rparr>"
        "\<lparr>ctxDone = (\<lambda>_. False), fault = (\<lambda>_. False), newUUID = (\<lambda>_. ''u''),
          timeNow = (\<lambda>_. 0), version = ''v''\<rparr>"
        "\<lparr>kv = Some KOther, blob = None, calls = []\<rparr>"]
    cas_callback_overwrites_unless_other_uid
    [of "Some (KSeed \<lparr>UID = ''abc'', PrometheusVersion = ''old'', CreatedAt = 1\<rparr>)"
        "\<lparr>UID = ''xyz'', PrometheusVersion = ''v'', CreatedAt = 5\<rparr>"
        "\<lparr>ctxDone = (\<lambda>_. False), fault = (\<lambda>_. False), newUUID = (\<lambda>_. ''u''),
          timeNow = (\<lambda>_. 0), version = ''v''\<rparr>"
        "\<lparr>kv = Some KOther, blob = None, calls = []\<rparr>"]
  by (simp add: clock_def)

text \<open>
  C8. The election step is idempotent: once a candidate is elected, so that the key holds
  this very seed, calling the step again with the same candidate, twice, returns the same
  resolved seed and the same proposal both times, without error, and the stored value is
  the same after each call.
\<close>

theorem electOrAdopt_idempotent:
  assumes "kv w = Some (KSeed seed)"
    and "\<not> fault e (clock w)" and "\<not> fault e (Suc (clock w))"
  shows "\<exists>w1 w2. CAS e (cas_callback seed) w =
             (Inr \<lparr>out = Some seed, retry = True, cb_err = None, seed_after = seed\<rparr>, w1)
         \<and> CAS e (cas_callback seed) w1 =
             (Inr \<lparr>out = Some seed, retry = True, cb_err = None, seed_after = seed\<rparr>, w2)
         \<and> kv w1 = kv w \<and> kv w2 = kv w \<and> blob w2 = blob w"
proof -
  let ?w1 = "logCall (CallCAS (Some seed) None) w"
  have 1: "CAS e (cas_callback seed) w =
      (Inr \<lparr>out = Some seed, retry = True, cb_err = None, seed_after = seed\<rparr>, ?w1)"
    using assms by (simp add: CAS_same_candidate)
  have 2: "CAS e (cas_callback seed) ?w1 =
      (Inr \<lparr>out = Some seed, retry = True, cb_err = None, seed_after = seed\<rparr>,
       logCall (CallCAS (Some seed) None) ?w1)"
    using assms by (simp add: CAS_same_candidate)
  show ?thesis
    using 1 2 by simp
qed

theorem electOrAdopt_idempotent_witness:
  "kv \<lparr>kv = Some (KSeed \<lparr>UID = ''xyz'', PrometheusVersion = ''v'', CreatedAt = 5\<rparr>),
        blob = None,
        calls = [CallCAS (Some \<lparr>UID = ''xyz'', PrometheusVersion = ''v'', CreatedAt = 5\<rparr>) None]\<rparr>
     = Some (KSeed \<lparr>UID = ''xyz'', PrometheusVersion = ''v'', CreatedAt = 5\<rparr>)
   \<and> fst (CAS \<lparr>ctxDone = (\<lambda>_. False), fault = (\<lambda>_. False), newUUID = (\<lambda>_. ''u''),
                 timeNow = (\<lambda>_. 0), version = ''v''\<rparr>
          (cas_callback \<lparr>UID = ''xyz'', PrometheusVersion = ''v'', CreatedAt = 5\<rparr>)
          \<lparr>kv = Some (KSeed \<lparr>UID = ''xyz'', PrometheusVersion = ''v'', CreatedAt = 5\<rparr>),
            blob = None,
            calls = [CallCAS (Some \<lparr>UID = ''xyz'', PrometheusVersion = ''v'', CreatedAt = 5\<rparr>) None]\<rparr>)
     = Inr \<lparr>out = Some \<lparr>UID = ''xyz'', PrometheusVersion = ''v'', CreatedAt = 5\<rparr>, retry = True,
            cb_err = None, seed_after = \<lparr>UID = ''xyz'', PrometheusVersion = ''v'', CreatedAt = 5\<rparr>\<rparr>
   \<and> kv (snd (CAS \<lparr>ctxDone = (\<lambda>_. False), fault = (\<lambda>_. False), newUUID = (\<lambda>_. ''u''),
                 timeNow = (\<lambda>_. 0), version = ''v''\<rparr>
          (cas_callback \<lparr>UID = ''xyz'', PrometheusVersion = ''v'', CreatedAt = 5\<rparr>)
          \<lparr>kv = Some (KSeed \<lparr>UID = ''xyz'', PrometheusVersion = ''v'', CreatedAt = 5\<rparr>),
            blob = None,
            calls = [CallCAS (Some \<lparr>UID = ''xyz'', PrometheusVersion = ''v'', CreatedAt = 5\<rparr>) None]\<rparr>))
     = Some (KSeed \<lparr>UID = ''xyz'', PrometheusVersion = ''v'', CreatedAt = 5\<rparr>)"
  using electOrAdopt_idempotent
    [of "\<lparr>kv = Some (KSeed \<lparr>UID = ''xyz'', PrometheusVersion = ''v'', CreatedAt = 5\<rparr>),
          blob = None,
          calls = [CallCAS (Some \<lparr>UID = ''xyz'', PrometheusVersion = ''v'', CreatedAt = 5\<rparr>) None]\<rparr>"
        "\<lparr>UID = ''xyz'', PrometheusVersion = ''v'', CreatedAt = 5\<rparr>"
        "\<lparr>ctxDone = (\<lambda>_. False), fault = (\<lambda>_. False), newUUID = (\<lambda>_. ''u''),
          timeNow = (\<lambda>_. 0), version = ''v''\<rparr>"]
  by auto

section \<open>Resolution by a leader\<close>

text \<open>
  A read that fails transiently is retried: after \<open>n\<close> such reads, with \<open>readingErr + n\<close>
  within \<open>attemptNumber\<close>, the next read that succeeds ends \<open>fetchSeed\<close> with the seed of
  the object, and nothing but reads was issued.
\<close>

lemma readSeedFile_fault:
  assumes "fault e (clock w)"
  shows "readSeedFile e w = (Inl ErrIO, logCall (CallGet (Inl ErrIO)) w)"
  using assms by (simp add: readSeedFile_def GetObject_def Let_def)

lemma logCall_calls_update:
  "logCall c (w\<lparr>calls := calls w @ cs\<rparr>) = w\<lparr>calls := calls w @ cs @ [c]\<rparr>"
  by (simp add: logCall_def)

lemma fetchSeed_loop_faults_then_found:
  assumes "blob w = Some (Encoded b)" and "readingErr + n \<le> attemptNumber"
    and "\<forall>j<n. fault e (clock w + j) \<and> \<not> ctxDone e (clock w + j)"
    and "\<not> fault e (clock w + n)" and "\<not> ctxDone e (clock w + n)"
    and "case continueFn of None \<Rightarrow> True | Some f \<Rightarrow> f ErrIO"
  shows "fetchSeed_loop (Suc (n + fuel)) e continueFn (backoff_New fetchSeed_config) readingErr w
           = (Some (Some b, None),
              w\<lparr>calls := calls w @ replicate n (CallGet (Inl ErrIO)) @ [CallGet (Inr b)]\<rparr>)"
  using assms
proof (induction n arbitrary: w readingErr)
  case 0
  then have "readSeedFile e w = (Inr b, logCall (CallGet (Inr b)) w)"
    by (simp add: readSeedFile_found)
  then show ?case
    using 0 by (simp add: Ongoing_def backoff_New_def fetchSeed_config_def logCall_def)
next
  case (Suc n)
  let ?w1 = "logCall (CallGet (Inl ErrIO)) w"
  have f0: "fault e (clock w)" and c0: "\<not> ctxDone e (clock w)"
    using Suc.prems(3) by auto
  have rd: "readSeedFile e w = (Inl ErrIO, ?w1)"
    using f0 by (rule readSeedFile_fault)
  have le: "Suc readingErr \<le> attemptNumber"
    using Suc.prems(2) by simp
  have ih: "fetchSeed_loop (Suc (n + fuel)) e continueFn (backoff_New fetchSeed_config)
              (Suc readingErr) ?w1
           = (Some (Some b, None),
              ?w1\<lparr>calls := calls ?w1 @ replicate n (CallGet (Inl ErrIO)) @ [CallGet (Inr b)]\<rparr>)"
  proof (rule Suc.IH)
    show "blob ?w1 = Some (Encoded b)"
      using Suc.prems(1) by simp
    show "Suc readingErr + n \<le> attemptNumber"
      using Suc.prems(2) by simp
    show "\<forall>j<n. fault e (clock ?w1 + j) \<and> \<not> ctxDone e (clock ?w1 + j)"
      using Suc.prems(3) by (auto simp: less_Suc_eq_0_disj)
    show "\<not> fault e (clock ?w1 + n)" "\<not> ctxDone e (clock ?w1 + n)"
      using Suc.prems(4,5) by simp_all
    show "case continueFn of None \<Rightarrow> True | Some f \<Rightarrow> f ErrIO"
      by (rule Suc.prems(6))
  qed
  have w1: "?w1\<lparr>calls := calls ?w1 @ replicate n (CallGet (Inl ErrIO)) @ [CallGet (Inr b)]\<rparr>
      = w\<lparr>calls := calls w @ replicate (Suc n) (CallGet (Inl ErrIO)) @ [CallGet (Inr b)]\<rparr>"
    by (simp add: logCall_def)
  have "fetchSeed_loop (Suc (Suc n + fuel)) e continueFn (backoff_New fetchSeed_config) readingErr w
      = fetchSeed_loop (Suc (n + fuel)) e continueFn (backoff_New fetchSeed_config)
          (Suc readingErr) ?w1"
    using c0 rd le Suc.prems(6)
    by (simp add: Ongoing_def backoff_New_def fetchSeed_config_def IsObjectNotFoundErr_def
          del: fetchSeed_loop.simps(2) add: fetchSeed_loop.simps(2) [of "Suc (n + fuel)" e continueFn _ readingErr w])
  then show ?case
    using ih w1 by (simp only:)
qed

text \<open>
  C5, as amended. A leader starts while the election key holds a seed whose UID differs
  from the candidate's. The election step keeps the stored value, writes nothing to the key
  and resolves to the stored seed. When the object exists and a read of it succeeds after
  at most \<open>attemptNumber\<close> failed reads, \<open>initLeader\<close> returns the seed of the object after
  that one compare-and-swap and these reads: the key and the object are as before, nothing
  was written or deleted; and the leader resolves to the stored UID when the object is of
  that UID.
\<close>

theorem initLeader_keeps_key_and_returns_object:
  assumes "kv w = Some (KSeed s)" and "UID s \<noteq> UID (newSeed e w)" and "\<not> fault e (clock w)"
  shows "CAS e (cas_callback (newSeed e w)) w
           = (Inr \<lparr>out = None, retry = False, cb_err = None, seed_after = s\<rparr>,
              logCall (CallCAS None None) w)
       \<and> (blob w = Some (Encoded b) \<and> n \<le> attemptNumber
            \<and> (\<forall>j<n. fault e (Suc (clock w) + j) \<and> \<not> ctxDone e (Suc (clock w) + j))
            \<and> \<not> fault e (Suc (clock w) + n) \<and> \<not> ctxDone e (Suc (clock w) + n)
            \<longrightarrow> initLeader (Suc (Suc (n + fuel))) e w
                  = (Some (Some b),
                     w\<lparr>calls := calls w @ CallCAS None None
                                 # replicate n (CallGet (Inl ErrIO)) @ [CallGet (Inr b)]\<rparr>)
              \<and> kv (snd (initLeader (Suc (Suc (n + fuel))) e w)) = kv w
              \<and> blob (snd (initLeader (Suc (Suc (n + fuel))) e w)) = blob w
              \<and> (UID b = UID s
                   \<longrightarrow> map_option (map_option UID) (fst (initLeader (Suc (Suc (n + fuel))) e w))
                         = Some (Some (UID s))))"
proof -
  let ?w1 = "logCall (CallCAS None None) w"
  have cas: "CAS e (cas_callback (newSeed e w)) w =
      (Inr \<lparr>out = None, retry = False, cb_err = None, seed_after = s\<rparr>, ?w1)"
    using assms by (simp add: CAS_other_uid)
  have run: "initLeader (Suc (Suc (n + fuel))) e w
      = (Some (Some b),
         w\<lparr>calls := calls w @ CallCAS None None
                     # replicate n (CallGet (Inl ErrIO)) @ [CallGet (Inr b)]\<rparr>)"
    if "blob w = Some (Encoded b)" "n \<le> attemptNumber"
      "\<forall>j<n. fault e (Suc (clock w) + j) \<and> \<not> ctxDone e (Suc (clock w) + j)"
      "\<not> fault e (Suc (clock w) + n)" "\<not> ctxDone e (Suc (clock w) + n)"
  proof -
    have "fetchSeed_loop (Suc (n + fuel)) e (Some retryUnlessNotFound)
            (backoff_New fetchSeed_config) 0 ?w1
        = (Some (Some b, None),
           ?w1\<lparr>calls := calls ?w1 @ replicate n (CallGet (Inl ErrIO)) @ [CallGet (Inr b)]\<rparr>)"
      using that
      by (intro fetchSeed_loop_faults_then_found)
         (simp_all add: retryUnlessNotFound_def IsObjectNotFoundErr_def)
    then have fetch: "fetchSeed (Suc (n + fuel)) e (Some retryUnlessNotFound) ?w1
        = (Some (Some b, None),
           w\<lparr>calls := calls w @ CallCAS None None
                       # replicate n (CallGet (Inl ErrIO)) @ [CallGet (Inr b)]\<rparr>)"
      by (simp add: fetchSeed_def logCall_def)
    show ?thesis
      unfolding initLeader_def by (simp add: cas fetch del: fetchSeed_loop.simps)
  qed
  show ?thesis
    using cas run by simp
qed

theorem initLeader_keeps_key_and_returns_object_witness:
  "initLeader 4 \<lparr>ctxDone = (\<lambda>_. False), fault = (\<lambda>t. t = 1 \<or> t = 2),
                 newUUID = (\<lambda>_. ''xyz''), timeNow = (\<lambda>_. 7), version = ''v1''\<rparr>
      \<lparr>kv = Some (KSeed \<lparr>UID = ''abc'', PrometheusVersion = ''v0'', CreatedAt = 1\<rparr>),
        blob = Some (Encoded \<lparr>UID = ''abc'', PrometheusVersion = ''v0'', CreatedAt = 1\<rparr>),
        calls = []\<rparr>
   = (Some (Some \<lparr>UID = ''abc'', PrometheusVersion = ''v0'', CreatedAt = 1\<rparr>),
      \<lparr>kv = Some (KSeed \<lparr>UID = ''abc'', PrometheusVersion = ''v0'', CreatedAt = 1\<rparr>),
        blob = Some (Encoded \<lparr>UID = ''abc'', PrometheusVersion = ''v0'', CreatedAt = 1\<rparr>),
        calls = [CallCAS None None, CallGet (Inl ErrIO), CallGet (Inl ErrIO),
                 CallGet (Inr \<lparr>UID = ''abc'', PrometheusVersion = ''v0'', CreatedAt = 1\<rparr>)]\<rparr>)"
proof -
  let ?e = "\<lparr>ctxDone = (\<lambda>_. False), fault = (\<lambda>t. t = 1 \<or> t = (2::nat)),
             newUUID = (\<lambda>_. ''xyz''), timeNow = (\<lambda>_. 7), version = ''v1''\<rparr>"
  let ?s = "\<lparr>UID = ''abc'', PrometheusVersion = ''v0'', CreatedAt = 1\<rparr>"
  let ?w = "\<lparr>kv = Some (KSeed ?s), blob = Some (Encoded ?s), calls = []\<rparr>"
  have k: "kv ?w = Some (KSeed ?s)" and u: "UID ?s \<noteq> UID (newSeed ?e ?w)"
    and f: "\<not> fault ?e (clock ?w)"
    by (simp_all add: newSeed_def clock_def)
  have hyp: "blob ?w = Some (Encoded ?s) \<and> Suc (Suc 0) \<le> attemptNumber
      \<and> (\<forall>j<Suc (Suc 0). fault ?e (Suc (clock ?w) + j) \<and> \<not> ctxDone ?e (Suc (clock ?w) + j))
      \<and> \<not> fault ?e (Suc (clock ?w) + Suc (Suc 0)) \<and> \<not> ctxDone ?e (Suc (clock ?w) + Suc (Suc 0))"
    by (auto simp: clock_def attemptNumber_def less_Suc_eq)
  have "initLeader (Suc (Suc (Suc (Suc 0) + 0))) ?e ?w
      = (Some (Some ?s),
         ?w\<lparr>calls := calls ?w @ CallCAS None None
                     # replicate (Suc (Suc 0)) (CallGet (Inl ErrIO)) @ [CallGet (Inr ?s)]\<rparr>)"
    using initLeader_keeps_key_and_returns_object [OF k u f, of ?s "Suc (Suc 0)" 0] hyp
    by blast
  then show ?thesis
    by (simp add: eval_nat_numeral)
qed

text \<open>
  C5 as stated fails in two ways. With the key on \<open>abc\<close> and the object on \<open>def\<close>, the
  leader resolves to \<open>def\<close>, the seed of the object, and not to the stored UID. With five
  failed reads of an existing object, the leader deletes the object and writes it again.
\<close>

theorem initLeader_resolves_to_object_and_rewrites_it:
  "initLeader 2 \<lparr>ctxDone = (\<lambda>_. False), fault = (\<lambda>_. False), newUUID = (\<lambda>_. ''xyz''),
                 timeNow = (\<lambda>_. 7), version = ''v1''\<rparr>
      \<lparr>kv = Some (KSeed \<lparr>UID = ''abc'', PrometheusVersion = ''v0'', CreatedAt = 1\<rparr>),
        blob = Some (Encoded \<lparr>UID = ''def'', PrometheusVersion = ''v0'', CreatedAt = 2\<rparr>),
        calls = []\<rparr>
   = (Some (Some \<lparr>UID = ''def'', PrometheusVersion = ''v0'', CreatedAt = 2\<rparr>),
      \<lparr>kv = Some (KSeed \<lparr>UID = ''abc'', PrometheusVersion = ''v0'', CreatedAt = 1\<rparr>),
        blob = Some (Encoded \<lparr>UID = ''def'', PrometheusVersion = ''v0'', CreatedAt = 2\<rparr>),
        calls = [CallCAS None None,
                 CallGet (Inr \<lparr>UID = ''def'', PrometheusVersion = ''v0'', CreatedAt = 2\<rparr>)]\<rparr>)
   \<and> initLeader 8 \<lparr>ctxDone = (\<lambda>_. False), fault = (\<lambda>t. 1 \<le> t \<and> t \<le> 5),
                 newUUID = (\<lambda>_. ''xyz''), timeNow = (\<lambda>_. 7), version = ''v1''\<rparr>
      \<lparr>kv = Some (KSeed \<lparr>UID = ''abc'', PrometheusVersion = ''v0'', CreatedAt = 1\<rparr>),
        blob = Some (Encoded \<lparr>UID = ''abc'', PrometheusVersion = ''v0'', CreatedAt = 1\<rparr>),
        calls = []\<rparr>
   = (Some (Some \<lparr>UID = ''abc'', PrometheusVersion = ''v0'', CreatedAt = 1\<rparr>),
      \<lparr>kv = Some (KSeed \<lparr>UID = ''abc'', PrometheusVersion = ''v0'', CreatedAt = 1\<rparr>),
        blob = Some (Encoded \<lparr>UID = ''abc'', PrometheusVersion = ''v0'', CreatedAt = 1\<rparr>),
        calls = [CallCAS None None, CallGet (Inl ErrIO), CallGet (Inl ErrIO),
                 CallGet (Inl ErrIO), CallGet (Inl ErrIO), CallGet (Inl ErrIO),
                 CallDelete None, CallGet (Inl ErrObjectNotFound),
                 CallPut \<lparr>UID = ''abc'', PrometheusVersion = ''v0'', CreatedAt = 1\<rparr> None]\<rparr>)"
  by code_simp

section \<open>Corrupted objects and cancelled resolutions\<close>

text \<open>
  C4, at a failing input. The object does not decode; the context is live and no call fails.
  After four reads the follower's \<open>fetchSeed\<close> has issued no delete and is still
  retrying: the delete is issued in the fifth iteration, where the counter exceeds
  \<open>attemptNumber\<close>.
\<close>

theorem fetchSeed_four_corrupt_reads_no_delete:
  "fetchSeed 4 \<lparr>ctxDone = (\<lambda>_. False), fault = (\<lambda>_. False), newUUID = (\<lambda>_. ''xyz''),
                timeNow = (\<lambda>_. 7), version = ''v1''\<rparr> None
      \<lparr>kv = None, blob = Some Garbage, calls = []\<rparr>
   = (None, \<lparr>kv = None, blob = Some Garbage,
             calls = [CallGet (Inl ErrCorrupt), CallGet (Inl ErrCorrupt),
                      CallGet (Inl ErrCorrupt), CallGet (Inl ErrCorrupt)]\<rparr>)
  \<and> fetchSeed 5 \<lparr>ctxDone = (\<lambda>_. False), fault = (\<lambda>_. False), newUUID = (\<lambda>_. ''xyz''),
                timeNow = (\<lambda>_. 7), version = ''v1''\<rparr> None
      \<lparr>kv = None, blob = Some Garbage, calls = []\<rparr>
   = (None, \<lparr>kv = None, blob = None,
             calls = [CallGet (Inl ErrCorrupt), CallGet (Inl ErrCorrupt),
                      CallGet (Inl ErrCorrupt), CallGet (Inl ErrCorrupt),
                      CallGet (Inl ErrCorrupt), CallDelete None]\<rparr>)"
  by code_simp

text \<open>
  C3, at a failing input. A follower starts with a cancelled context: \<open>fetchSeed\<close>
  returns no seed, \<open>init\<close> stores it, and \<open>running\<close> goes on to read
  \<open>rep.cluster.CreatedAt\<close> through the \<open>nil\<close> pointer.
\<close>

theorem running_follower_cancelled_nil_dereference:
  "running (Suc fuel) \<lparr>ctxDone = (\<lambda>_. True), fault = (\<lambda>_. False), newUUID = (\<lambda>_. ''xyz''),
                timeNow = (\<lambda>_. 7), version = ''v1''\<rparr>
      \<lparr>conf = \<lparr>Disabled = False, Leader = False\<rparr>, cluster = None, lastReport = 0\<rparr>
      \<lparr>kv = None, blob = None, calls = []\<rparr> evs
   = (NilDereference, \<lparr>kv = None, blob = None, calls = []\<rparr>)"
  by (simp add: running_def init_def fetchSeed_cancelled)

text \<open>
  On the leader's path a context that is cancelled throughout never lets \<open>initLeader\<close>
  return, whatever the fuel: the loop has no exit but \<open>return\<close>.
\<close>

lemma initLeader_cancelled_never_returns:
  assumes "\<forall>t. ctxDone e t"
  shows "fst (initLeader_loop fuel e w) = None"
proof (induction fuel arbitrary: w)
  case 0
  show ?case by simp
next
  case (Suc fuel)
  show ?case
  proof (cases fuel)
    case 0
    then show ?thesis
      by (simp add: fetchSeed_def split: prod.splits sum.splits)
  next
    case (Suc n)
    have "fetchSeed (Suc n) e c w' = (Some (None, Some ErrCanceled), w')" for c w'
      using assms by (simp add: fetchSeed_cancelled)
    then show ?thesis
      using Suc.IH Suc
      by (simp add: IsObjectNotFoundErr_def split: prod.splits sum.splits del: fetchSeed_loop.simps)
  qed
qed

section \<open>Several leaders: steps and invariants\<close>

lemma clock_kv_update [simp]: "clock (w\<lparr>kv := v\<rparr>) = clock w"
  by (simp add: clock_def)

lemma clock_blob_update [simp]: "clock (w\<lparr>blob := v\<rparr>) = clock w"
  by (simp add: clock_def)

lemma leader_step_AtCAS:
  "leader_step e AtCAS w =
     (if fault e (clock w)
      then (AtCAS, logCall (CallCAS None (Some ErrStoreUnavailable)) w)
      else (case kv w of
              Some (KSeed k) \<Rightarrow>
                if UID k \<noteq> newUUID e (clock w)
                then (AtRead k 0, logCall (CallCAS None None) w)
                else (AtRead (newSeed e w) 0,
                      logCall (CallCAS (Some (newSeed e w)) None) (w\<lparr>kv := Some (KSeed (newSeed e w))\<rparr>))
            | _ \<Rightarrow> (AtRead (newSeed e w) 0,
                      logCall (CallCAS (Some (newSeed e w)) None) (w\<lparr>kv := Some (KSeed (newSeed e w))\<rparr>))))"
  by (simp add: leader_step_def CAS_def cas_callback_def newSeed_def Let_def
           split: option.splits kvval.splits)

lemma readSeedFile_cases:
  "readSeedFile e w =
     (let r = (if fault e (clock w) then Inl ErrIO
               else case blob w of None \<Rightarrow> Inl ErrObjectNotFound
                    | Some Garbage \<Rightarrow> Inl ErrCorrupt
                    | Some (Encoded b) \<Rightarrow> Inr b)
      in (r, logCall (CallGet r) w))"
  by (simp add: readSeedFile_def GetObject_def JSONCodec_Decode_def Let_def
           split: option.splits blob.splits)

lemma leader_step_AtRead:
  "leader_step e (AtRead seed n) w =
     (if ctxDone e (clock w) then (AtCAS, w)
      else if fault e (clock w)
        then (if n + 1 > attemptNumber then AtDelete seed ErrIO else AtRead seed (n + 1),
              logCall (CallGet (Inl ErrIO)) w)
      else (case blob w of
              None \<Rightarrow> (if n > attemptNumber then AtDelete seed ErrObjectNotFound else AtWrite seed,
                       logCall (CallGet (Inl ErrObjectNotFound)) w)
            | Some Garbage \<Rightarrow>
                (if n + 1 > attemptNumber then AtDelete seed ErrCorrupt else AtRead seed (n + 1),
                 logCall (CallGet (Inl ErrCorrupt)) w)
            | Some (Encoded b) \<Rightarrow> (Done (Some b), logCall (CallGet (Inr b)) w)))"
  by (simp add: leader_step_def readSeedFile_cases Ongoing_def backoff_Err_def backoff_New_def
        fetchSeed_config_def afterFetch_def afterReadError_def retryUnlessNotFound_def
        IsObjectNotFoundErr_def Let_def
      split: option.splits blob.splits)

lemma leader_step_AtDelete:
  "leader_step e (AtDelete seed err) w =
     (if err = ErrObjectNotFound then AtWrite seed else AtRead seed 0,
      if fault e (clock w) then logCall (CallDelete (Some ErrIO)) w
      else logCall (CallDelete None) (w\<lparr>blob := None\<rparr>))"
  by (simp add: leader_step_def DeleteObject_def afterFetch_def afterReadError_def
        retryUnlessNotFound_def IsObjectNotFoundErr_def)

lemma leader_step_AtWrite:
  "leader_step e (AtWrite seed) w =
     (if fault e (clock w) then (AtCAS, logCall (CallPut seed (Some ErrIO)) w)
      else (Done (Some seed), logCall (CallPut seed None) (w\<lparr>blob := Some (Encoded seed)\<rparr>)))"
  by (simp add: leader_step_def writeSeedFile_def PutObject_def JSONCodec_Encode_def)

lemma leader_step_Done: "leader_step e (Done r) w = (Done r, w)"
  by (simp add: leader_step_def)

lemma pc_ok_kv_cong: "pc_ok w c \<Longrightarrow> kv w' = kv w \<Longrightarrow> pc_ok w' c"
  by (simp add: pc_ok_def split: pc.splits)

lemma pc_ok_absent: "kv w = None \<Longrightarrow> pc_ok w c \<Longrightarrow> c = AtCAS"
  by (simp add: pc_ok_def split: pc.splits)

lemma kv_ok_mono: "kv_ok e w \<Longrightarrow> kv w' = kv w \<Longrightarrow> clock w \<le> clock w' \<Longrightarrow> kv_ok e w'"
  unfolding kv_ok_def by (metis less_le_trans)

lemma fresh_differs:
  assumes "inj (newUUID e)" and "kv_ok e w" and "kv w = Some (KSeed k)"
  shows "UID k \<noteq> newUUID e (clock w)"
proof -
  obtain t where "t < clock w" and "UID k = newUUID e t"
    using assms(2,3) unfolding kv_ok_def by auto
  then show ?thesis
    using assms(1) by (auto dest: injD)
qed

lemma coreI:
  assumes "kv_ok e w'" and "pc_ok w' c'" and "\<And>q. pc_ok w' (pcs s q)" and "blob_ok w'"
    and "blob w' = None \<Longrightarrow> \<not> returned c'" and "p \<in> P"
  shows "core e P \<lparr>pcs = (pcs s)(p := c'), shared = w', trace = tr\<rparr>"
  unfolding core_def using assms by auto

lemma coreD:
  assumes "core e P s"
  shows "kv_ok e (shared s)" and "pc_ok (shared s) (pcs s q)" and "blob_ok (shared s)"
  using assms unfolding core_def by auto

lemma blob_ok_cong: "blob_ok w \<Longrightarrow> kv w' = kv w \<Longrightarrow> blob w' = blob w \<Longrightarrow> blob_ok w'"
  by (simp add: blob_ok_def)

lemma core_step_AtCAS:
  assumes "inj (newUUID e)" and "core e P s" and "pcs s p = AtCAS" and "p \<in> P"
  shows "core e P (sys_step e p s)"
proof (cases "fault e (clock (shared s))")
  case True
  let ?w' = "logCall (CallCAS None (Some ErrStoreUnavailable)) (shared s)"
  have st: "sys_step e p s = \<lparr>pcs = (pcs s)(p := AtCAS), shared = ?w',
      trace = trace s @ [(p, CallCAS None (Some ErrStoreUnavailable))]\<rparr>"
    using assms(3) True by (simp add: sys_step_def leader_step_AtCAS)
  show ?thesis
    unfolding st
  proof (rule coreI)
    show "kv_ok e ?w'"
      using coreD(1) [OF assms(2)] by (rule kv_ok_mono) simp_all
    show "pc_ok ?w' AtCAS"
      by (simp add: pc_ok_def)
    show "pc_ok ?w' (pcs s q)" for q
      using coreD(2) [OF assms(2), of q] by (rule pc_ok_kv_cong) simp
    show "blob_ok ?w'"
      using coreD(3) [OF assms(2)] by (rule blob_ok_cong) simp_all
    show "\<not> returned AtCAS"
      by (simp add: returned_def)
    show "p \<in> P" by fact
  qed
next
  case nofault: False
  show ?thesis
  proof (cases "kv (shared s)")
    case None
    let ?n = "newSeed e (shared s)"
    let ?w' = "logCall (CallCAS (Some ?n) None) ((shared s)\<lparr>kv := Some (KSeed ?n)\<rparr>)"
    have st: "sys_step e p s = \<lparr>pcs = (pcs s)(p := AtRead ?n 0), shared = ?w',
      trace = trace s @ [(p, CallCAS (Some ?n) None)]\<rparr>"
      using assms(3) nofault None by (simp add: sys_step_def leader_step_AtCAS)
    have all: "pcs s q = AtCAS" for q
      using coreD(2) [OF assms(2), of q] None by (rule pc_ok_absent [rotated])
    have b: "blob (shared s) = None"
      using coreD(3) [OF assms(2)] None unfolding blob_ok_def
      by (cases "blob (shared s)") auto
    show ?thesis
      unfolding st
    proof (rule coreI)
      show "kv_ok e ?w'"
        unfolding kv_ok_def by (auto simp: newSeed_def)
      show "pc_ok ?w' (AtRead ?n 0)"
        by (simp add: pc_ok_def)
      show "pc_ok ?w' (pcs s q)" for q
        by (simp add: all pc_ok_def)
      show "blob_ok ?w'"
        by (simp add: blob_ok_def b)
      show "\<not> returned (AtRead ?n 0)"
        by (simp add: returned_def)
      show "p \<in> P" by fact
    qed
  next
    case (Some v)
    then obtain k where k: "kv (shared s) = Some (KSeed k)"
      using coreD(1) [OF assms(2)] unfolding kv_ok_def by auto
    have d: "UID k \<noteq> newUUID e (clock (shared s))"
      using assms(1) coreD(1) [OF assms(2)] k by (rule fresh_differs)
    let ?w' = "logCall (CallCAS None None) (shared s)"
    have st: "sys_step e p s = \<lparr>pcs = (pcs s)(p := AtRead k 0), shared = ?w',
      trace = trace s @ [(p, CallCAS None None)]\<rparr>"
      using assms(3) nofault k d by (simp add: sys_step_def leader_step_AtCAS)
    show ?thesis
      unfolding st
    proof (rule coreI)
      show "kv_ok e ?w'"
        using coreD(1) [OF assms(2)] by (rule kv_ok_mono) simp_all
      show "pc_ok ?w' (AtRead k 0)"
        using k by (simp add: pc_ok_def)
      show "pc_ok ?w' (pcs s q)" for q
        using coreD(2) [OF assms(2), of q] by (rule pc_ok_kv_cong) simp
      show "blob_ok ?w'"
        using coreD(3) [OF assms(2)] by (rule blob_ok_cong) simp_all
      show "\<not> returned (AtRead k 0)"
        by (simp add: returned_def)
      show "p \<in> P" by fact
    qed
  qed
qed

lemma core_sys_step:
  assumes "core e P s" and "p \<in> P"
    and "leader_step e (pcs s p) (shared s) = (c', w')"
    and "kv w' = kv (shared s)" and "clock (shared s) \<le> clock w'"
    and "pc_ok w' c'" and "blob_ok w'" and "blob w' = None \<Longrightarrow> \<not> returned c'"
  shows "core e P (sys_step e p s)"
proof -
  have st: "sys_step e p s = \<lparr>pcs = (pcs s)(p := c'), shared = w',
      trace = trace s @ map (Pair p) (drop (length (calls (shared s))) (calls w'))\<rparr>"
    using assms(3) by (simp add: sys_step_def)
  show ?thesis
    unfolding st
  proof (rule coreI)
    show "kv_ok e w'"
      using coreD(1) [OF assms(1)] assms(4,5) by (rule kv_ok_mono)
    show "pc_ok w' (pcs s q)" for q
      using coreD(2) [OF assms(1), of q] assms(4) by (rule pc_ok_kv_cong)
  qed (use assms in auto)
qed

lemma core_step_AtRead:
  assumes "core e P s" and "pcs s p = AtRead seed n" and "p \<in> P"
  shows "core e P (sys_step e p s)"
proof -
  let ?w = "shared s"
  have ok: "kv ?w = Some (KSeed seed)" "n \<le> attemptNumber"
    using coreD(2) [OF assms(1), of p] assms(2) by (simp_all add: pc_ok_def)
  have bl: "blob_ok ?w"
    by (rule coreD(3) [OF assms(1)])
  obtain c' w' where step: "leader_step e (pcs s p) ?w = (c', w')"
    by (cases "leader_step e (pcs s p) ?w")
  have w': "kv w' = kv ?w" "blob w' = blob ?w" "clock ?w \<le> clock w'"
    using step assms(2)
    by (auto simp: leader_step_AtRead split: if_splits option.splits blob.splits)
  have c': "pc_ok w' c'"
    using step assms(2) ok bl w'(1)
    by (auto simp: leader_step_AtRead pc_ok_def blob_ok_def attemptNumber_def
          split: if_splits option.splits blob.splits)
  have r: "\<not> returned c'" if "blob w' = None"
    using step assms(2) that w'(2)
    by (auto simp: leader_step_AtRead returned_def split: if_splits option.splits blob.splits)
  show ?thesis
    using assms(1,3) step w'(1,3) c' _ r
  proof (rule core_sys_step)
    show "blob_ok w'"
      using bl w'(1,2) by (rule blob_ok_cong)
  qed
qed

lemma core_step_AtDelete:
  assumes "core e P s" and "pcs s p = AtDelete seed err" and "p \<in> P"
  shows "core e P (sys_step e p s)"
proof -
  let ?w = "shared s"
  have ok: "kv ?w = Some (KSeed seed)" "err \<noteq> ErrObjectNotFound"
    using coreD(2) [OF assms(1), of p] assms(2) by (simp_all add: pc_ok_def)
  have bl: "blob_ok ?w"
    by (rule coreD(3) [OF assms(1)])
  obtain c' w' where step: "leader_step e (pcs s p) ?w = (c', w')"
    by (cases "leader_step e (pcs s p) ?w")
  have c'_eq: "c' = AtRead seed 0"
    using step assms(2) ok by (simp add: leader_step_AtDelete)
  have w': "kv w' = kv ?w" "blob w' = blob ?w \<or> blob w' = None" "clock ?w \<le> clock w'"
    using step assms(2) by (auto simp: leader_step_AtDelete split: if_splits)
  show ?thesis
    using assms(1,3) step w'(1,3)
  proof (rule core_sys_step)
    show "pc_ok w' c'"
      using ok w'(1) by (simp add: c'_eq pc_ok_def attemptNumber_def)
    show "blob_ok w'"
      using bl w'(1,2) by (auto simp: blob_ok_def)
    show "\<not> returned c'"
      by (simp add: c'_eq returned_def)
  qed
qed

lemma core_step_AtWrite:
  assumes "core e P s" and "pcs s p = AtWrite seed" and "p \<in> P"
  shows "core e P (sys_step e p s)"
proof -
  let ?w = "shared s"
  have ok: "kv ?w = Some (KSeed seed)"
    using coreD(2) [OF assms(1), of p] assms(2) by (simp_all add: pc_ok_def)
  have bl: "blob_ok ?w"
    by (rule coreD(3) [OF assms(1)])
  obtain c' w' where step: "leader_step e (pcs s p) ?w = (c', w')"
    by (cases "leader_step e (pcs s p) ?w")
  have w': "kv w' = kv ?w" "clock ?w \<le> clock w'"
    using step assms(2) by (auto simp: leader_step_AtWrite split: if_splits)
  show ?thesis
    using assms(1,3) step w'
  proof (rule core_sys_step)
    show "pc_ok w' c'"
      using step assms(2) ok w'(1)
      by (auto simp: leader_step_AtWrite pc_ok_def split: if_splits)
    show "blob_ok w'"
      using step assms(2) ok bl
      by (auto simp: leader_step_AtWrite blob_ok_def split: if_splits)
    show "\<not> returned c'" if "blob w' = None"
      using step assms(2) that
      by (auto simp: leader_step_AtWrite returned_def split: if_splits)
  qed
qed

lemma sys_step_Done: "pcs s p = Done r \<Longrightarrow> sys_step e p s = s"
  by (simp add: sys_step_def leader_step_Done fun_upd_idem)

lemma core_step:
  assumes "inj (newUUID e)" and "core e P s" and "p \<in> P"
  shows "core e P (sys_step e p s)"
proof (cases "pcs s p")
  case AtCAS
  with assms show ?thesis by (simp add: core_step_AtCAS)
next
  case (AtRead seed n)
  with assms show ?thesis by (simp add: core_step_AtRead)
next
  case (AtDelete seed err)
  with assms show ?thesis by (simp add: core_step_AtDelete)
next
  case (AtWrite seed)
  with assms show ?thesis by (simp add: core_step_AtWrite)
next
  case (Done r)
  with assms show ?thesis by (simp add: sys_step_Done)
qed

lemma core_exec:
  assumes "inj (newUUID e)" and "set ps \<subseteq> P"
  shows "core e P s \<Longrightarrow> core e P (exec e ps s)"
  using assms(2)
proof (induction ps arbitrary: s)
  case Nil
  then show ?case by simp
next
  case (Cons p ps)
  then show ?case
    using core_step [OF assms(1), of P s p] by simp
qed

lemma core_start:
  assumes "kv w = None" and "blob w = None" and "P \<noteq> {}"
  shows "core e P (start w)"
  using assms by (auto simp: core_def start_def kv_ok_def pc_ok_def blob_ok_def returned_def)

lemma leader_step_elim:
  assumes "leader_step e c w = (c', w')"
    and "pc_ok w c" and "blob_ok w" and "kv_ok e w" and "inj (newUUID e)"
  obtains
    (cas_fail) "c = AtCAS" "c' = AtCAS" "kv w' = kv w"
       "calls w' = calls w @ [CallCAS None (Some ErrStoreUnavailable)]"
  | (elect) "c = AtCAS" "kv w = None" "c' = AtRead (newSeed e w) 0"
       "kv w' = Some (KSeed (newSeed e w))"
       "calls w' = calls w @ [CallCAS (Some (newSeed e w)) None]"
  | (adopt) k where "c = AtCAS" "kv w = Some (KSeed k)" "c' = AtRead k 0" "kv w' = kv w"
       "calls w' = calls w @ [CallCAS None None]"
  | (cancelled) seed n where "c = AtRead seed n" "c' = AtCAS" "w' = w"
  | (read_err) seed n err where "c = AtRead seed n" "err \<noteq> ErrObjectNotFound"
       "c' = AtRead seed (n + 1) \<or> c' = AtDelete seed err" "kv w' = kv w"
       "calls w' = calls w @ [CallGet (Inl err)]"
  | (read_absent) seed n where "c = AtRead seed n" "c' = AtWrite seed" "kv w' = kv w"
       "calls w' = calls w @ [CallGet (Inl ErrObjectNotFound)]"
  | (read_found) seed n b where "c = AtRead seed n" "c' = Done (Some b)" "kv w' = kv w"
       "calls w' = calls w @ [CallGet (Inr b)]"
  | (delete) seed err r where "c = AtDelete seed err" "c' = AtRead seed 0" "kv w' = kv w"
       "calls w' = calls w @ [CallDelete r]"
  | (write_fail) seed where "c = AtWrite seed" "c' = AtCAS" "kv w' = kv w"
       "calls w' = calls w @ [CallPut seed (Some ErrIO)]"
  | (write_ok) seed where "c = AtWrite seed" "c' = Done (Some seed)" "kv w' = kv w"
       "calls w' = calls w @ [CallPut seed None]"
  | (finished) r where "c = Done r" "c' = c" "w' = w"
proof (cases c)
  case AtCAS
  show ?thesis
  proof (cases "fault e (clock w)")
    case True
    then show ?thesis
      using assms(1) AtCAS by (intro cas_fail) (auto simp: leader_step_AtCAS)
  next
    case nofault: False
    show ?thesis
    proof (cases "kv w")
      case None
      then show ?thesis
        using assms(1) AtCAS nofault by (intro elect) (auto simp: leader_step_AtCAS)
    next
      case (Some v)
      then obtain k where k: "kv w = Some (KSeed k)"
        using assms(4) unfolding kv_ok_def by auto
      have "UID k \<noteq> newUUID e (clock w)"
        using assms(5,4) k by (rule fresh_differs)
      then show ?thesis
        using assms(1) AtCAS nofault k by (intro adopt [of k]) (auto simp: leader_step_AtCAS)
    qed
  qed
next
  case (AtRead seed n)
  have n: "n \<le> attemptNumber"
    using assms(2) AtRead by (simp add: pc_ok_def)
  show ?thesis
  proof (cases "ctxDone e (clock w)")
    case True
    then show ?thesis
      using assms(1) AtRead by (intro cancelled [of seed n]) (auto simp: leader_step_AtRead)
  next
    case live: False
    show ?thesis
    proof (cases "fault e (clock w)")
      case True
      then show ?thesis
        using assms(1) AtRead live
        by (intro read_err [of seed n ErrIO]) (auto simp: leader_step_AtRead split: if_splits)
    next
      case nofault: False
      show ?thesis
      proof (cases "blob w")
        case None
        then show ?thesis
          using assms(1) AtRead live nofault n
          by (intro read_absent [of seed n]) (auto simp: leader_step_AtRead)
      next
        case (Some b)
        then obtain k where k: "blob w = Some (Encoded k)"
          using assms(3) unfolding blob_ok_def by auto
        then show ?thesis
          using assms(1) AtRead live nofault
          by (intro read_found [of seed n k]) (auto simp: leader_step_AtRead)
      qed
    qed
  qed
next
  case (AtDelete seed err)
  have "err \<noteq> ErrObjectNotFound"
    using assms(2) AtDelete by (simp add: pc_ok_def)
  then show ?thesis
    using assms(1) AtDelete
    by (intro delete [of seed err "if fault e (clock w) then Some ErrIO else None"])
       (auto simp: leader_step_AtDelete split: if_splits)
next
  case (AtWrite seed)
  show ?thesis
  proof (cases "fault e (clock w)")
    case True
    then show ?thesis
      using assms(1) AtWrite by (intro write_fail [of seed]) (auto simp: leader_step_AtWrite)
  next
    case False
    then show ?thesis
      using assms(1) AtWrite by (intro write_ok [of seed]) (auto simp: leader_step_AtWrite)
  qed
next
  case (Done r)
  then show ?thesis
    using assms(1) by (intro finished [of r]) (auto simp: leader_step_Done)
qed

lemma puts_follow_notfound_snoc:
  "puts_follow_notfound prev (cs @ [c]) =
     (puts_follow_notfound prev cs
      \<and> (is_put c \<longrightarrow> (if cs = [] then prev else Some (last cs)) = Some (CallGet (Inl ErrObjectNotFound))))"
  by (induction cs arbitrary: prev) auto

lemma own_snoc: "own q (tr @ [(p, c)]) = (if q = p then own q tr @ [c] else own q tr)"
  by (simp add: own_def)

lemma sys_step_eq:
  assumes "leader_step e (pcs s p) (shared s) = (c', w')" and "calls w' = calls (shared s) @ evs"
  shows "sys_step e p s = \<lparr>pcs = (pcs s)(p := c'), shared = w', trace = trace s @ map (Pair p) evs\<rparr>"
  using assms by (simp add: sys_step_def)

lemma sys_step_silent:
  assumes "leader_step e (pcs s p) (shared s) = (c', shared s)"
  shows "sys_step e p s = \<lparr>pcs = (pcs s)(p := c'), shared = shared s, trace = trace s\<rparr>"
  using assms by (simp add: sys_step_def)

text \<open>
  One step, seen from outside: the process, its new control state, the new world and the
  call it issued, if any.
\<close>

lemma sys_step_elim:
  assumes "core e P s" and "inj (newUUID e)"
  obtains
    (silent) c' where "sys_step e p s = \<lparr>pcs = (pcs s)(p := c'), shared = shared s, trace = trace s\<rparr>"
      "c' = AtCAS \<or> c' = pcs s p" "\<forall>seed. c' \<noteq> AtWrite seed \<or> c' = pcs s p"
  | (elect) w' where "kv (shared s) = None" "kv w' = Some (KSeed (newSeed e (shared s)))"
      "sys_step e p s = \<lparr>pcs = (pcs s)(p := AtRead (newSeed e (shared s)) 0), shared = w',
         trace = trace s @ [(p, CallCAS (Some (newSeed e (shared s))) None)]\<rparr>"
  | (other) c' w' ev where "kv w' = kv (shared s)" "\<not> is_election ev" "\<not> is_put ev"
      "\<forall>seed. c' = AtWrite seed \<longrightarrow> ev = CallGet (Inl ErrObjectNotFound)"
      "sys_step e p s = \<lparr>pcs = (pcs s)(p := c'), shared = w', trace = trace s @ [(p, ev)]\<rparr>"
  | (put) seed c' w' r where "pcs s p = AtWrite seed" "kv w' = kv (shared s)"
      "kv (shared s) = Some (KSeed seed)" "\<forall>seed. c' \<noteq> AtWrite seed"
      "sys_step e p s = \<lparr>pcs = (pcs s)(p := c'), shared = w', trace = trace s @ [(p, CallPut seed r)]\<rparr>"
proof -
  obtain c' w' where step: "leader_step e (pcs s p) (shared s) = (c', w')"
    by (cases "leader_step e (pcs s p) (shared s)")
  from step coreD(2) [OF assms(1), of p] coreD(3) [OF assms(1)] coreD(1) [OF assms(1)] assms(2)
  show ?thesis
  proof (cases rule: leader_step_elim)
    case cas_fail
    then show ?thesis
      using sys_step_eq [OF step, of "[CallCAS None (Some ErrStoreUnavailable)]"]
      by (intro other [of w' "CallCAS None (Some ErrStoreUnavailable)" c'])
         (auto simp: is_election_def is_put_def)
  next
    case elect
    then show ?thesis
      using sys_step_eq [OF step, of "[CallCAS (Some (newSeed e (shared s))) None]"]
      by (intro that(2) [of w']) auto
  next
    case (adopt k)
    then show ?thesis
      using sys_step_eq [OF step, of "[CallCAS None None]"]
      by (intro other [of w' "CallCAS None None" c']) (auto simp: is_election_def is_put_def)
  next
    case (cancelled seed n)
    then show ?thesis
      using sys_step_silent [of e s p c'] step by (intro silent [of c']) auto
  next
    case (read_err seed n err)
    then show ?thesis
      using sys_step_eq [OF step, of "[CallGet (Inl err)]"]
      by (intro other [of w' "CallGet (Inl err)" c']) (auto simp: is_election_def is_put_def)
  next
    case (read_absent seed n)
    then show ?thesis
      using sys_step_eq [OF step, of "[CallGet (Inl ErrObjectNotFound)]"]
      by (intro other [of w' "CallGet (Inl ErrObjectNotFound)" c'])
         (auto simp: is_election_def is_put_def)
  next
    case (read_found seed n b)
    then show ?thesis
      using sys_step_eq [OF step, of "[CallGet (Inr b)]"]
      by (intro other [of w' "CallGet (Inr b)" c']) (auto simp: is_election_def is_put_def)
  next
    case (delete seed err r)
    then show ?thesis
      using sys_step_eq [OF step, of "[CallDelete r]"]
      by (intro other [of w' "CallDelete r" c']) (auto simp: is_election_def is_put_def)
  next
    case (write_fail seed)
    then show ?thesis
      using sys_step_eq [OF step, of "[CallPut seed (Some ErrIO)]"]
        coreD(2) [OF assms(1), of p]
      by (intro put [of seed w' c' "Some ErrIO"]) (auto simp: pc_ok_def)
  next
    case (write_ok seed)
    then show ?thesis
      using sys_step_eq [OF step, of "[CallPut seed None]"]
        coreD(2) [OF assms(1), of p]
      by (intro put [of seed w' c' None]) (auto simp: pc_ok_def)
  next
    case (finished r)
    then show ?thesis
      using sys_step_silent [of e s p c'] step by (intro silent [of c']) auto
  qed
qed

lemma put_ok_step:
  assumes "core e P s" and "inj (newUUID e)" and "put_ok s"
  shows "put_ok (sys_step e p s)"
  using assms(1,2)
proof (cases rule: sys_step_elim [where p = p])
  case (silent c')
  then show ?thesis using assms(3) by (simp add: put_ok_def)
next
  case (elect w')
  then show ?thesis using assms(3) by (auto simp: put_ok_def)
next
  case (other c' w' ev)
  then show ?thesis using assms(3) by (auto simp: put_ok_def is_put_def)
next
  case (put seed c' w' r)
  then show ?thesis using assms(3) by (auto simp: put_ok_def)
qed

lemma elect_ok_step:
  assumes "core e P s" and "inj (newUUID e)" and "elect_ok s"
  shows "elect_ok (sys_step e p s)"
  using assms(1,2)
proof (cases rule: sys_step_elim [where p = p])
  case (silent c')
  then show ?thesis using assms(3) by (simp add: elect_ok_def)
next
  case (elect w')
  then show ?thesis using assms(3) by (simp add: elect_ok_def is_election_def)
next
  case (other c' w' ev)
  then show ?thesis using assms(3) by (simp add: elect_ok_def)
next
  case (put seed c' w' r)
  then show ?thesis using assms(3) by (simp add: elect_ok_def is_election_def)
qed

lemma follow_ok_step:
  assumes "core e P s" and "inj (newUUID e)" and "follow_ok s"
  shows "follow_ok (sys_step e p s)"
  using assms(1,2)
proof (cases rule: sys_step_elim [where p = p])
  case (silent c')
  have "pcs s p = AtWrite seed" if "c' = AtWrite seed" for seed
    using silent(2,3) that by auto
  then show ?thesis
    using assms(3) silent(1) unfolding follow_ok_def by (simp, blast)
next
  case (elect w')
  then show ?thesis
    using assms(3)
    by (auto simp: follow_ok_def own_snoc puts_follow_notfound_snoc is_put_def)
next
  case (other c' w' ev)
  then show ?thesis
    using assms(3)
    by (auto simp: follow_ok_def own_snoc puts_follow_notfound_snoc)
next
  case (put seed c' w' r)
  then show ?thesis
    using assms(3)
    by (auto simp: follow_ok_def own_snoc puts_follow_notfound_snoc)
qed

lemma leaders_inv_exec:
  assumes "inj (newUUID e)" and "set ps \<subseteq> P"
  shows "leaders_inv e P s \<Longrightarrow> leaders_inv e P (exec e ps s)"
  using assms(2)
proof (induction ps arbitrary: s)
  case Nil
  then show ?case by simp
next
  case (Cons p ps)
  have c: "core e P s" and p: "p \<in> P"
    using Cons.prems by (simp_all add: leaders_inv_def)
  have "leaders_inv e P (sys_step e p s)"
    using Cons.prems(1) core_step [OF assms(1) c p] put_ok_step [OF c assms(1), of p]
      elect_ok_step [OF c assms(1), of p] follow_ok_step [OF c assms(1), of p]
    by (simp add: leaders_inv_def)
  then show ?case
    using Cons by simp
qed

lemma leaders_inv_start:
  assumes "kv w = None" and "blob w = None" and "P \<noteq> {}"
  shows "leaders_inv e P (start w)"
  using core_start [OF assms]
  by (simp add: leaders_inv_def put_ok_def elect_ok_def follow_ok_def start_def own_def assms(1))

section \<open>Several leaders converge on one seed\<close>

text \<open>
  C1, as amended. The election key and the seed object are both absent at the start, and
  \<open>uuid.NewString()\<close> never returns the same UID twice. Then, for every schedule of the
  store calls of the leaders in \<open>P\<close>, with any transient failures and cancellations:
  every leader that has returned resolved to the seed that the key holds; the object, when
  present, holds that seed, and it is present once all leaders have returned; every write
  of the object ever issued carries that seed; that seed was written to the key by exactly
  one compare-and-swap, and its UID is one that a candidate generated; and every write of
  the object follows directly, among the calls of its process, a read that returned
  not-found.
\<close>

theorem leaders_converge_on_one_seed:
  assumes "inj (newUUID e)" and "kv w = None" and "blob w = None"
    and "set ps \<subseteq> P" and "P \<noteq> {}"
  shows "let s = exec e ps (start w) in
           (\<forall>p r. pcs s p = Done r \<longrightarrow> (\<exists>k. r = Some k \<and> kv (shared s) = Some (KSeed k)))
         \<and> (\<forall>b. blob (shared s) = Some b \<longrightarrow> (\<exists>k. b = Encoded k \<and> kv (shared s) = Some (KSeed k)))
         \<and> ((\<forall>p\<in>P. returned (pcs s p)) \<longrightarrow> blob (shared s) \<noteq> None)
         \<and> (\<forall>q seed r. (q, CallPut seed r) \<in> set (trace s) \<longrightarrow> kv (shared s) = Some (KSeed seed))
         \<and> (\<forall>k. kv (shared s) = Some (KSeed k) \<longrightarrow>
               filter is_election (map snd (trace s)) = [CallCAS (Some k) None]
               \<and> (\<exists>t<clock (shared s). UID k = newUUID e t))
         \<and> (\<forall>p. puts_follow_notfound None (own p (trace s)))"
proof -
  let ?s = "exec e ps (start w)"
  have i: "leaders_inv e P ?s"
    using assms(1,4) leaders_inv_start [OF assms(2,3,5)] by (rule leaders_inv_exec)
  then have c: "core e P ?s" and p: "put_ok ?s" and el: "elect_ok ?s" and f: "follow_ok ?s"
    by (simp_all add: leaders_inv_def)
  have 1: "\<exists>k. r = Some k \<and> kv (shared ?s) = Some (KSeed k)" if "pcs ?s p = Done r" for p r
    using coreD(2) [OF c, of p] that by (simp add: pc_ok_def)
  have 2: "\<exists>k. b = Encoded k \<and> kv (shared ?s) = Some (KSeed k)" if "blob (shared ?s) = Some b" for b
    using coreD(3) [OF c] that by (simp add: blob_ok_def)
  have 3: "blob (shared ?s) \<noteq> None" if "\<forall>p\<in>P. returned (pcs ?s p)"
    using c that unfolding core_def by blast
  have 4: "kv (shared ?s) = Some (KSeed seed)" if "(q, CallPut seed r) \<in> set (trace ?s)" for q seed r
    using p that unfolding put_ok_def by blast
  have 5: "filter is_election (map snd (trace ?s)) = [CallCAS (Some k) None]
      \<and> (\<exists>t<clock (shared ?s). UID k = newUUID e t)" if "kv (shared ?s) = Some (KSeed k)" for k
    using el coreD(1) [OF c] that unfolding elect_ok_def kv_ok_def by auto
  have 6: "puts_follow_notfound None (own p (trace ?s))" for p
    using f unfolding follow_ok_def by blast
  show ?thesis
    unfolding Let_def using 1 2 3 4 5 6 by blast
qed

lemma two_leaders_run:
  "pcs (exec \<lparr>ctxDone = (\<lambda>_. False), fault = (\<lambda>_. False),
               newUUID = (\<lambda>t. replicate (Suc t) CHR ''u''), timeNow = (\<lambda>_. 7), version = ''v1''\<rparr>
          [0, 1, 0, 1, 0, 1] (start \<lparr>kv = None, blob = None, calls = []\<rparr>)) 0
     = Done (Some \<lparr>UID = ''u'', PrometheusVersion = ''v1'', CreatedAt = 7\<rparr>)"
  "pcs (exec \<lparr>ctxDone = (\<lambda>_. False), fault = (\<lambda>_. False),
               newUUID = (\<lambda>t. replicate (Suc t) CHR ''u''), timeNow = (\<lambda>_. 7), version = ''v1''\<rparr>
          [0, 1, 0, 1, 0, 1] (start \<lparr>kv = None, blob = None, calls = []\<rparr>)) 1
     = Done (Some \<lparr>UID = ''u'', PrometheusVersion = ''v1'', CreatedAt = 7\<rparr>)"
  "blob (shared (exec \<lparr>ctxDone = (\<lambda>_. False), fault = (\<lambda>_. False),
               newUUID = (\<lambda>t. replicate (Suc t) CHR ''u''), timeNow = (\<lambda>_. 7), version = ''v1''\<rparr>
          [0, 1, 0, 1, 0, 1] (start \<lparr>kv = None, blob = None, calls = []\<rparr>)))
     = Some (Encoded \<lparr>UID = ''u'', PrometheusVersion = ''v1'', CreatedAt = 7\<rparr>)"
  by code_simp+

theorem leaders_converge_on_one_seed_witness:
  "kv (shared (exec \<lparr>ctxDone = (\<lambda>_. False), fault = (\<lambda>_. False),
               newUUID = (\<lambda>t. replicate (Suc t) CHR ''u''), timeNow = (\<lambda>_. 7), version = ''v1''\<rparr>
          [0, 1, 0, 1, 0, 1] (start \<lparr>kv = None, blob = None, calls = []\<rparr>)))
     = Some (KSeed \<lparr>UID = ''u'', PrometheusVersion = ''v1'', CreatedAt = 7\<rparr>)
   \<and> filter is_election (map snd (trace (exec \<lparr>ctxDone = (\<lambda>_. False), fault = (\<lambda>_. False),
               newUUID = (\<lambda>t. replicate (Suc t) CHR ''u''), timeNow = (\<lambda>_. 7), version = ''v1''\<rparr>
          [0, 1, 0, 1, 0, 1] (start \<lparr>kv = None, blob = None, calls = []\<rparr>))))
     = [CallCAS (Some \<lparr>UID = ''u'', PrometheusVersion = ''v1'', CreatedAt = 7\<rparr>) None]
   \<and> pcs (exec \<lparr>ctxDone = (\<lambda>_. False), fault = (\<lambda>_. False),
               newUUID = (\<lambda>t. replicate (Suc t) CHR ''u''), timeNow = (\<lambda>_. 7), version = ''v1''\<rparr>
          [0, 1, 0, 1, 0, 1] (start \<lparr>kv = None, blob = None, calls = []\<rparr>)) 1
     = Done (Some \<lparr>UID = ''u'', PrometheusVersion = ''v1'', CreatedAt = 7\<rparr>)"
proof -
  let ?e = "\<lparr>ctxDone = (\<lambda>_. False), fault = (\<lambda>_. False),
               newUUID = (\<lambda>t. replicate (Suc t) CHR ''u''), timeNow = (\<lambda>_. 7), version = ''v1''\<rparr>"
  let ?w = "\<lparr>kv = None, blob = None, calls = []\<rparr>"
  have i: "inj (newUUID ?e)"
    by (simp add: inj_on_def)
  have sub: "set [0, 1, 0, 1, 0, 1] \<subseteq> {0, 1 :: nat}" and ne: "{0, 1 :: nat} \<noteq> {}"
    by simp_all
  have kvw: "kv ?w = None" and blw: "blob ?w = None"
    by simp_all
  show ?thesis
    using leaders_converge_on_one_seed [OF i kvw blw sub ne] two_leaders_run(1,2)
    unfolding Let_def by blast
qed

text \<open>
  C1 as stated supposes an absent key only, and fails when the object is there already.
  Two leaders, whose candidates have the UIDs \<open>u0\<close> and \<open>u1\<close>, start on an absent key and an
  object that holds the seed \<open>abc\<close>: the first wins the election, both resolve to \<open>abc\<close>,
  and the object keeps \<open>abc\<close>, the UID of neither candidate.
\<close>

theorem leaders_on_existing_object:
  "pcs (exec \<lparr>ctxDone = (\<lambda>_. False), fault = (\<lambda>_. False),
               newUUID = (\<lambda>t. if t = 0 then ''u0'' else ''u1''), timeNow = (\<lambda>_. 7),
               version = ''v1''\<rparr>
          [0, 1, 0, 1]
          (start \<lparr>kv = None,
                  blob = Some (Encoded \<lparr>UID = ''abc'', PrometheusVersion = ''v0'', CreatedAt = 1\<rparr>),
                  calls = []\<rparr>)) 0
     = Done (Some \<lparr>UID = ''abc'', PrometheusVersion = ''v0'', CreatedAt = 1\<rparr>)
   \<and> pcs (exec \<lparr>ctxDone = (\<lambda>_. False), fault = (\<lambda>_. False),
               newUUID = (\<lambda>t. if t = 0 then ''u0'' else ''u1''), timeNow = (\<lambda>_. 7),
               version = ''v1''\<rparr>
          [0, 1, 0, 1]
          (start \<lparr>kv = None,
                  blob = Some (Encoded \<lparr>UID = ''abc'', PrometheusVersion = ''v0'', CreatedAt = 1\<rparr>),
                  calls = []\<rparr>)) 1
     = Done (Some \<lparr>UID = ''abc'', PrometheusVersion = ''v0'', CreatedAt = 1\<rparr>)
   \<and> shared (exec \<lparr>ctxDone = (\<lambda>_. False), fault = (\<lambda>_. False),
               newUUID = (\<lambda>t. if t = 0 then ''u0'' else ''u1''), timeNow = (\<lambda>_. 7),
               version = ''v1''\<rparr>
          [0, 1, 0, 1]
          (start \<lparr>kv = None,
                  blob = Some (Encoded \<lparr>UID = ''abc'', PrometheusVersion = ''v0'', CreatedAt = 1\<rparr>),
                  calls = []\<rparr>))
     = \<lparr>kv = Some (KSeed \<lparr>UID = ''u0'', PrometheusVersion = ''v1'', CreatedAt = 7\<rparr>),
        blob = Some (Encoded \<lparr>UID = ''abc'', PrometheusVersion = ''v0'', CreatedAt = 1\<rparr>),
        calls = [CallCAS (Some \<lparr>UID = ''u0'', PrometheusVersion = ''v1'', CreatedAt = 7\<rparr>) None,
                 CallCAS None None,
                 CallGet (Inr \<lparr>UID = ''abc'', PrometheusVersion = ''v0'', CreatedAt = 1\<rparr>),
                 CallGet (Inr \<lparr>UID = ''abc'', PrometheusVersion = ''v0'', CreatedAt = 1\<rparr>)]\<rparr>"
  by code_simp

section \<open>The steps are those of \<open>initLeader\<close>\<close>

text \<open>
  Whatever \<open>initLeader\<close> returns, one process alone reaches by steps, with the same
  stores and the same calls.
\<close>

lemma run_add: "run (m + n) e x = run n e (run m e x)"
  by (induction m arbitrary: x) simp_all

lemma run_step: "run (Suc 0) e (c, w) = leader_step e c w"
  by simp

lemma fetchSeed_loop_run:
  "fetchSeed_loop fuel e (Some retryUnlessNotFound) (backoff_New fetchSeed_config) n w = (Some res, w')
     \<Longrightarrow> \<exists>m. run m e (AtRead seed n, w) = (afterFetch seed res, w')"
proof (induction fuel arbitrary: n w)
  case 0
  then show ?case by simp
next
  case (Suc fuel)
  let ?b = "backoff_New fetchSeed_config"
  show ?case
  proof (cases "Ongoing (ctxDone e (clock w)) ?b")
    case False
    then have "leader_step e (AtRead seed n) w = (afterFetch seed res, w')"
      using Suc.prems by (auto simp: leader_step_def)
    then have "run (Suc 0) e (AtRead seed n, w) = (afterFetch seed res, w')"
      by simp
    then show ?thesis by blast
  next
    case True
    obtain r w1 where rd: "readSeedFile e w = (r, w1)"
      by (cases "readSeedFile e w")
    show ?thesis
    proof (cases r)
      case (Inr remote)
      then have "leader_step e (AtRead seed n) w = (afterFetch seed res, w')"
        using Suc.prems True rd by (auto simp: leader_step_def)
      then have "run (Suc 0) e (AtRead seed n, w) = (afterFetch seed res, w')"
        by simp
      then show ?thesis by blast
    next
      case (Inl err)
      let ?n1 = "if \<not> IsObjectNotFoundErr err then n + 1 else n"
      show ?thesis
      proof (cases "?n1 > attemptNumber")
        case over: True
        let ?w2 = "snd (DeleteObject e w1)"
        have s1: "leader_step e (AtRead seed n) w = (AtDelete seed err, w1)"
          using True rd Inl over by (simp add: leader_step_def Let_def)
        have s2: "leader_step e (AtDelete seed err) w1 = (afterReadError seed err 0, ?w2)"
          by (simp add: leader_step_def)
        have two: "run (Suc (Suc 0)) e (AtRead seed n, w) = (afterReadError seed err 0, ?w2)"
          by (simp add: s1 s2)
        show ?thesis
        proof (cases "retryUnlessNotFound err")
          case True
          then have "fetchSeed_loop fuel e (Some retryUnlessNotFound) ?b 0 ?w2 = (Some res, w')"
            using Suc.prems \<open>Ongoing (ctxDone e (clock w)) ?b\<close> rd Inl over
            by (simp add: Let_def)
          then obtain m where "run m e (AtRead seed 0, ?w2) = (afterFetch seed res, w')"
            using Suc.IH by blast
          then have "run (Suc (Suc 0) + m) e (AtRead seed n, w) = (afterFetch seed res, w')"
            unfolding run_add two using True by (simp add: afterReadError_def)
          then show ?thesis by blast
        next
          case False
          then have "res = (None, Some err)" "w' = ?w2"
            using Suc.prems \<open>Ongoing (ctxDone e (clock w)) ?b\<close> rd Inl over
            by (simp_all add: Let_def)
          then have "run (Suc (Suc 0)) e (AtRead seed n, w) = (afterFetch seed res, w')"
            using two False by (simp add: afterReadError_def)
          then show ?thesis by blast
        qed
      next
        case under: False
        have s1: "leader_step e (AtRead seed n) w = (afterReadError seed err ?n1, w1)"
          using True rd Inl under by (simp add: leader_step_def Let_def)
        then have one: "run (Suc 0) e (AtRead seed n, w) = (afterReadError seed err ?n1, w1)"
          by simp
        show ?thesis
        proof (cases "retryUnlessNotFound err")
          case True
          then have "fetchSeed_loop fuel e (Some retryUnlessNotFound) ?b ?n1 w1 = (Some res, w')"
            using Suc.prems \<open>Ongoing (ctxDone e (clock w)) ?b\<close> rd Inl under
            by (simp add: Let_def)
          then obtain m where "run m e (AtRead seed ?n1, w1) = (afterFetch seed res, w')"
            using Suc.IH by blast
          then have "run (Suc 0 + m) e (AtRead seed n, w) = (afterFetch seed res, w')"
            unfolding run_add one using True by (simp add: afterReadError_def)
          then show ?thesis by blast
        next
          case False
          then have "res = (None, Some err)" "w' = w1"
            using Suc.prems \<open>Ongoing (ctxDone e (clock w)) ?b\<close> rd Inl under
            by (simp_all add: Let_def)
          then have "run (Suc 0) e (AtRead seed n, w) = (afterFetch seed res, w')"
            using one False by (simp add: afterReadError_def)
          then show ?thesis by blast
        qed
      qed
    qed
  qed
qed

lemma initLeader_loop_run:
  "initLeader_loop fuel e w = (Some r, w') \<Longrightarrow> \<exists>m. run m e (AtCAS, w) = (Done r, w')"
proof (induction fuel arbitrary: w)
  case 0
  then show ?case by simp
next
  case (Suc fuel)
  let ?seed = "newSeed e w"
  obtain c w1 where cas: "CAS e (cas_callback ?seed) w = (c, w1)"
    by (cases "CAS e (cas_callback ?seed) w")
  show ?case
  proof (cases c)
    case (Inl err)
    then have "initLeader_loop fuel e w1 = (Some r, w')"
      using Suc.prems cas by (simp add: newSeed_def)
    then obtain m where "run m e (AtCAS, w1) = (Done r, w')"
      using Suc.IH by blast
    moreover have "run (Suc 0) e (AtCAS, w) = (AtCAS, w1)"
      using cas Inl by (simp add: leader_step_def)
    ultimately have "run (Suc 0 + m) e (AtCAS, w) = (Done r, w')"
      unfolding run_add by simp
    then show ?thesis by blast
  next
    case (Inr r0)
    let ?s = "seed_after r0"
    have one: "run (Suc 0) e (AtCAS, w) = (AtRead ?s 0, w1)"
      using cas Inr by (simp add: leader_step_def)
    obtain f w2 where fs: "fetchSeed fuel e (Some retryUnlessNotFound) w1 = (f, w2)"
      by (cases "fetchSeed fuel e (Some retryUnlessNotFound) w1")
    obtain res where res: "f = Some res"
      using Suc.prems cas Inr fs by (cases f) (auto simp: newSeed_def)
    obtain m where m: "run m e (AtRead ?s 0, w1) = (afterFetch ?s res, w2)"
      using fetchSeed_loop_run [of fuel e 0 w1 res w2 ?s] fs res
      by (auto simp: fetchSeed_def)
    have upto: "run (Suc 0 + m) e (AtCAS, w) = (afterFetch ?s res, w2)"
      unfolding run_add one by (rule m)
    obtain remote oerr where pair: "res = (remote, oerr)"
      by (cases res)
    show ?thesis
    proof (cases oerr)
      case None
      then have "r = remote" "w' = w2"
        using Suc.prems cas Inr fs res pair by (simp_all add: newSeed_def)
      then have "run (Suc 0 + m) e (AtCAS, w) = (Done r, w')"
        using upto pair None by (simp add: afterFetch_def del: run.simps add_Suc)
      then show ?thesis by blast
    next
      case (Some err)
      show ?thesis
      proof (cases "IsObjectNotFoundErr err")
        case False
        then have "initLeader_loop fuel e w2 = (Some r, w')"
          using Suc.prems cas Inr fs res pair Some by (simp add: newSeed_def)
        then obtain k where "run k e (AtCAS, w2) = (Done r, w')"
          using Suc.IH by blast
        moreover have "afterFetch ?s res = AtCAS"
          using pair Some False by (simp add: afterFetch_def)
        ultimately have "run ((Suc 0 + m) + k) e (AtCAS, w) = (Done r, w')"
          unfolding run_add [of "Suc 0 + m"] upto by simp
        then show ?thesis by blast
      next
        case True
        then have at: "afterFetch ?s res = AtWrite ?s"
          using pair Some by (simp add: afterFetch_def)
        obtain we w3 where wr: "writeSeedFile e ?s w2 = (we, w3)"
          by (cases "writeSeedFile e ?s w2")
        show ?thesis
        proof (cases we)
          case None
          then have "r = Some ?s" "w' = w3"
            using Suc.prems cas Inr fs res pair Some True wr by (simp_all add: newSeed_def)
          moreover have "leader_step e (AtWrite ?s) w2 = (Done (Some ?s), w3)"
            using wr None by (simp add: leader_step_def)
          ultimately have "run ((Suc 0 + m) + Suc 0) e (AtCAS, w) = (Done r, w')"
            unfolding run_add [of "Suc 0 + m"] upto at by simp
          then show ?thesis by blast
        next
          case (Some err')
          then have "initLeader_loop fuel e w3 = (Some r, w')"
            using Suc.prems cas Inr fs res pair \<open>oerr = Some err\<close> True wr
            by (simp add: newSeed_def)
          then obtain k where k: "run k e (AtCAS, w3) = (Done r, w')"
            using Suc.IH by blast
          have "leader_step e (AtWrite ?s) w2 = (AtCAS, w3)"
            using wr Some by (simp add: leader_step_def)
          then have "run ((Suc 0 + m) + Suc 0) e (AtCAS, w) = (AtCAS, w3)"
            unfolding run_add [of "Suc 0 + m"] upto at by simp
          then have "run (((Suc 0 + m) + Suc 0) + k) e (AtCAS, w) = (Done r, w')"
            unfolding run_add [of "(Suc 0 + m) + Suc 0"] using k by simp
          then show ?thesis by blast
        qed
      qed
    qed
  qed
qed

section \<open>The retry envelope of a report\<close>

lemma Ongoing_reportUsage:
  "Ongoing c \<lparr>cfg = reportUsage_config, numRetries = n\<rparr> \<longleftrightarrow> \<not> c \<and> n < 5"
  by (simp add: Ongoing_def reportUsage_config_def)

lemma reportUsage_loop_unfold:
  "reportUsage_loop cancelled send n errs =
     (if \<not> cancelled n \<and> n < 5 then
        (case send n of
           Some err \<Rightarrow> reportUsage_loop cancelled send (Suc n) (errs @ [err])
         | None \<Rightarrow> (None, Suc n))
      else (multierror_Err errs, n))"
  by (subst reportUsage_loop.simps)
     (simp add: Ongoing_reportUsage Wait_def Let_def cong: option.case_cong)

lemma reportUsage_loop_calls:
  "n \<le> 5 \<Longrightarrow> snd (reportUsage_loop cancelled send n errs) \<le> 5"
proof (induction cancelled send n errs rule: reportUsage_loop.induct)
  case (1 cancelled send n errs)
  show ?case
  proof (cases "\<not> cancelled n \<and> n < 5")
    case True
    then show ?thesis
      using "1.IH" [OF refl] 
      by (subst reportUsage_loop_unfold) (auto simp: Ongoing_reportUsage Wait_def split: option.splits)
  next
    case False
    then show ?thesis
      using "1.prems" by (subst reportUsage_loop_unfold) auto
  qed
qed

lemma reportUsage_loop_success:
  assumes "\<forall>j. n \<le> j \<and> j \<le> k \<longrightarrow> \<not> cancelled j"
    and "\<forall>j. n \<le> j \<and> j < k \<longrightarrow> send j \<noteq> None"
    and "send k = None" and "k < 5" and "n \<le> k"
  shows "reportUsage_loop cancelled send n errs = (None, Suc k)"
  using assms
proof (induction "k - n" arbitrary: n errs)
  case 0
  then have "n = k" by simp
  with 0 show ?case
    by (subst reportUsage_loop_unfold) simp
next
  case (Suc d)
  then have lt: "n < k" by simp
  obtain err where err: "send n = Some err"
    using Suc.prems(2) lt by auto
  have "reportUsage_loop cancelled send (Suc n) (errs @ [err]) = (None, Suc k)"
    using Suc.hyps(2) Suc.prems lt by (intro Suc.hyps(1)) auto
  moreover have "\<not> cancelled n \<and> n < 5"
    using Suc.prems lt by auto
  ultimately show ?case
    by (subst reportUsage_loop_unfold) (simp add: err)
qed

lemma reportUsage_loop_exhausted:
  assumes "\<forall>j. n \<le> j \<and> j < 5 \<longrightarrow> \<not> cancelled j \<and> send j = Some (f j)" and "n \<le> 5"
  shows "reportUsage_loop cancelled send n errs = (multierror_Err (errs @ map f [n..<5]), 5)"
  using assms
proof (induction "5 - n" arbitrary: n errs)
  case 0
  then have "n = 5" by simp
  then show ?case
    by (subst reportUsage_loop_unfold) simp
next
  case (Suc d)
  then have lt: "n < 5" by simp
  have step: "reportUsage_loop cancelled send (Suc n) (errs @ [f n])
      = (multierror_Err ((errs @ [f n]) @ map f [Suc n..<5]), 5)"
    using Suc.hyps(2) Suc.prems lt by (intro Suc.hyps(1)) auto
  have "[n..<5] = n # [Suc n..<5]"
    using lt by (simp add: upt_conv_Cons)
  then show ?case
    using Suc.prems lt step by (subst reportUsage_loop_unfold) simp
qed

lemma reportUsage_loop_aggregate:
  "reportUsage_loop cancelled send n errs = (Some err, m)
     \<Longrightarrow> err = MultiError (errs @ map (\<lambda>j. the (send j)) [n..<m]) \<and> n \<le> m
         \<and> (\<forall>j. n \<le> j \<and> j < m \<longrightarrow> send j \<noteq> None)"
proof (induction cancelled send n errs rule: reportUsage_loop.induct)
  case (1 cancelled send n errs)
  show ?case
  proof (cases "\<not> cancelled n \<and> n < 5")
    case True
    then obtain e where e: "send n = Some e"
      using "1.prems" by (subst (asm) reportUsage_loop_unfold) (auto split: option.splits)
    have rec: "reportUsage_loop cancelled send (Suc n) (errs @ [e]) = (Some err, m)"
      using "1.prems" True e by (subst (asm) reportUsage_loop_unfold) simp
    have ih: "err = MultiError ((errs @ [e]) @ map (\<lambda>j. the (send j)) [Suc n..<m]) \<and> Suc n \<le> m
         \<and> (\<forall>j. Suc n \<le> j \<and> j < m \<longrightarrow> send j \<noteq> None)"
      using "1.IH" [OF refl _ e] True rec by (simp add: Ongoing_reportUsage Wait_def)
    then have upt: "[n..<m] = n # [Suc n..<m]"
      by (simp add: upt_conv_Cons)
    have "send j \<noteq> None" if "n \<le> j" and "j < m" for j
    proof (cases "j = n")
      case True
      then show ?thesis using e by simp
    next
      case False
      then have "Suc n \<le> j" using that by simp
      then show ?thesis using ih that by blast
    qed
    then show ?thesis
      using ih e upt by simp
  next
    case False
    then show ?thesis
      using "1.prems"
      by (subst (asm) reportUsage_loop_unfold) (auto simp: multierror_Err_def split: if_splits)
  qed
qed

lemma running_loop_ticks_only:
  "CtxDone \<notin> set evs \<Longrightarrow> \<exists>s'. running_loop s evs = Selecting s'"
proof (induction evs arbitrary: s)
  case Nil
  show ?case by simp
next
  case (Cons ev evs)
  then show ?case by (cases ev) auto
qed

text \<open>
  C7. A due report is sent with at most five calls of \<open>sendReport\<close>, under the backoff
  configuration of one to thirty seconds and five retries. \<open>reportUsage\<close> returns \<open>nil\<close>
  as soon as a call succeeds. When all five calls fail, it returns one aggregate of the
  five errors, in order; whenever it returns an error, this is the aggregate of the errors
  of all the calls made. No outcome of a send ends the service: over ticks alone the loop
  of \<open>running\<close> stays in \<open>select\<close>.
\<close>

theorem reportUsage_bounded_retry:
  "reportUsage_calls cancelled send \<le> 5
   \<and> reportUsage_config
       = \<lparr>MinBackoff = time_Second, MaxBackoff = 30 * time_Second, MaxRetries = 5\<rparr>
   \<and> (k < 5 \<and> (\<forall>j\<le>k. \<not> cancelled j) \<and> (\<forall>j<k. send j \<noteq> None) \<and> send k = None
        \<longrightarrow> reportUsage cancelled send = None \<and> reportUsage_calls cancelled send = Suc k)
   \<and> ((\<forall>j<5. \<not> cancelled j \<and> send j = Some (f j))
        \<longrightarrow> reportUsage cancelled send = Some (MultiError (map f [0..<5]))
          \<and> reportUsage_calls cancelled send = 5)
   \<and> (reportUsage cancelled send = Some err
        \<longrightarrow> err = MultiError (map (\<lambda>j. the (send j)) [0..<reportUsage_calls cancelled send])
          \<and> (\<forall>j<reportUsage_calls cancelled send. send j \<noteq> None))
   \<and> (CtxDone \<notin> set evs \<longrightarrow> (\<exists>s'. running_loop s evs = Selecting s'))"
proof -
  have calls: "reportUsage_calls cancelled send \<le> 5"
    unfolding reportUsage_calls_def by (rule reportUsage_loop_calls) simp
  have success: "reportUsage cancelled send = None \<and> reportUsage_calls cancelled send = Suc k"
    if "k < 5" "\<forall>j\<le>k. \<not> cancelled j" "\<forall>j<k. send j \<noteq> None" "send k = None"
    using reportUsage_loop_success [of 0 k cancelled send "[]"] that
    by (simp add: reportUsage_def reportUsage_calls_def)
  have exhausted: "reportUsage cancelled send = Some (MultiError (map f [0..<5]))
      \<and> reportUsage_calls cancelled send = 5"
    if "\<forall>j<5. \<not> cancelled j \<and> send j = Some (f j)"
    using reportUsage_loop_exhausted [of 0 cancelled send f "[]"] that
    by (simp add: reportUsage_def reportUsage_calls_def multierror_Err_def)
  have aggregate: "err = MultiError (map (\<lambda>j. the (send j)) [0..<reportUsage_calls cancelled send])
      \<and> (\<forall>j<reportUsage_calls cancelled send. send j \<noteq> None)"
    if "reportUsage cancelled send = Some err"
    using reportUsage_loop_aggregate
      [of cancelled send 0 "[]" err "snd (reportUsage_loop cancelled send 0 [])"] that
    by (simp add: reportUsage_def reportUsage_calls_def prod_eq_iff)
  show ?thesis
    using calls success exhausted aggregate running_loop_ticks_only [of evs s]
    by (simp add: reportUsage_config_def)
qed

theorem reportUsage_bounded_retry_witness:
  "reportUsage (\<lambda>_. False) (\<lambda>n. if n < 2 then Some (ErrSend n) else None) = None
   \<and> reportUsage_calls (\<lambda>_. False) (\<lambda>n. if n < 2 then Some (ErrSend n) else None) = 3
   \<and> reportUsage (\<lambda>_. False) (\<lambda>n. Some (ErrSend n))
       = Some (MultiError [ErrSend 0, ErrSend 1, ErrSend 2, ErrSend 3, ErrSend 4])
   \<and> reportUsage_calls (\<lambda>_. False) (\<lambda>n. Some (ErrSend n)) = 5
   \<and> (\<exists>s'. running_loop
         \<lparr>rep = \<lparr>conf = \<lparr>Disabled = False, Leader = True\<rparr>, cluster = None, lastReport = 0\<rparr>,
           next_t = 3600000000000, reports = []\<rparr>
         [TickerC 3600000000000 (\<lambda>_. False) (\<lambda>n. Some (ErrSend n))] = Selecting s')"
proof -
  have up: "[0..<5] = [0, 1, 2, 3, Suc 3]"
    by (simp add: upt_rec)
  show ?thesis
    using
      reportUsage_bounded_retry
        [where cancelled = "\<lambda>_. False" and send = "\<lambda>n. if n < 2 then Some (ErrSend n) else None"
           and k = 2 and f = ErrSend and evs = "[]"]
      reportUsage_bounded_retry
        [where cancelled = "\<lambda>_. False" and send = "\<lambda>n. Some (ErrSend n)" and k = 0
           and f = ErrSend
           and err = "MultiError [ErrSend 0, ErrSend 1, ErrSend 2, ErrSend 3, ErrSend 4]"
           and evs = "[TickerC 3600000000000 (\<lambda>_. False) (\<lambda>n. Some (ErrSend n))]"
           and s = "\<lparr>rep = \<lparr>conf = \<lparr>Disabled = False, Leader = True\<rparr>, cluster = None,
                           lastReport = 0\<rparr>,
                     next_t = 3600000000000, reports = []\<rparr>"]
    by (simp add: up)
qed

section \<open>The tick loop\<close>

lemma reportInterval_range:
  "0 < reportInterval" "reportInterval \<le> maxInt64" "minInt64 < reportInterval"
  by (simp_all add: reportInterval_def maxInt64_def minInt64_def)

lemma time_Sub_less_iff:
  assumes "minInt64 < i" and "i \<le> maxInt64"
  shows "time_Sub a b < i \<longleftrightarrow> a - b < i"
  using assms by (auto simp: time_Sub_def Let_def)

lemma int64_neg_reportInterval: "int64_neg reportInterval = - reportInterval"
  by (simp add: int64_neg_def int64_wrap_def reportInterval_def)

lemma due_iff:
  "(\<not> time_Equal nx now \<and> time_Sub now l < reportInterval)
     \<longleftrightarrow> \<not> (now = nx \<or> reportInterval \<le> now - l)"
  using time_Sub_less_iff [OF reportInterval_range(3) reportInterval_range(2), of now l]
  by (auto simp: time_Equal_def)

lemma onTick_alt:
  "onTick s now cancelled send =
     (if now = next_t s \<or> reportInterval \<le> now - lastReport (rep s)
      then (case reportUsage cancelled send of
              Some err \<Rightarrow> s\<lparr>reports := reports s @ [(next_t s, Some err)]\<rparr>
            | None \<Rightarrow>
                s\<lparr>rep := (rep s)\<lparr>lastReport := next_t s\<rparr>,
                  next_t := next_t s + reportInterval,
                  reports := reports s @ [(next_t s, None)]\<rparr>)
      else s)"
  unfolding onTick_def time_Add_def due_iff by simp

lemma onTick_retry:
  assumes "reportInterval \<le> now - lastReport (rep s)" and "now \<le> now'"
    and "reportUsage cancelled send = Some err"
  shows "reports (onTick (onTick s now cancelled send) now' cancelled' send')
           = reports s @ [(next_t s, Some err), (next_t s, reportUsage cancelled' send')]"
proof -
  have 1: "onTick s now cancelled send = s\<lparr>reports := reports s @ [(next_t s, Some err)]\<rparr>"
    using assms by (simp add: onTick_alt)
  have 2: "reportInterval \<le> now' - lastReport (rep s)"
    using assms by linarith
  show ?thesis
    unfolding 1 using 2 by (simp add: onTick_alt split: option.splits)
qed

text \<open>
  The loop keeps \<open>next\<close> one interval after \<open>lastReport\<close>, so that a report that is due
  is due by the elapsed time.
\<close>

lemma onTick_keeps_phase:
  "next_t s = lastReport (rep s) + reportInterval
     \<Longrightarrow> next_t (onTick s now cancelled send)
           = lastReport (rep (onTick s now cancelled send)) + reportInterval"
  by (simp add: onTick_alt split: option.splits)

text \<open>
  C6. On a tick a report is due exactly when \<open>now = next\<close> or
  \<open>now - lastReport \<ge> reportInterval\<close>: otherwise the state is left as it is. When the
  report is due and sent, \<open>lastReport\<close> becomes \<open>next\<close> and \<open>next\<close> advances by one
  interval. When the report is due and the send fails, \<open>next\<close> and \<open>lastReport\<close> are
  unchanged; and when it was due by the elapsed time, as it is throughout the loop of
  \<open>running\<close>, every later tick calls \<open>reportUsage\<close> again for the same \<open>next\<close>.
\<close>

theorem onTick_due_advance_retry:
  "(\<not> (now = next_t s \<or> reportInterval \<le> now - lastReport (rep s))
       \<longrightarrow> onTick s now cancelled send = s)
   \<and> ((now = next_t s \<or> reportInterval \<le> now - lastReport (rep s))
         \<and> reportUsage cancelled send = None
       \<longrightarrow> onTick s now cancelled send
             = s\<lparr>rep := (rep s)\<lparr>lastReport := next_t s\<rparr>,
                 next_t := next_t s + reportInterval,
                 reports := reports s @ [(next_t s, None)]\<rparr>)
   \<and> ((now = next_t s \<or> reportInterval \<le> now - lastReport (rep s))
         \<and> reportUsage cancelled send = Some err
       \<longrightarrow> onTick s now cancelled send = s\<lparr>reports := reports s @ [(next_t s, Some err)]\<rparr>
         \<and> next_t (onTick s now cancelled send) = next_t s
         \<and> lastReport (rep (onTick s now cancelled send)) = lastReport (rep s)
         \<and> (reportInterval \<le> now - lastReport (rep s) \<and> now \<le> now'
              \<longrightarrow> reports (onTick (onTick s now cancelled send) now' cancelled' send')
                    = reports s @ [(next_t s, Some err), (next_t s, reportUsage cancelled' send')]))"
  using onTick_retry [of now s now' cancelled send err cancelled' send']
  by (simp add: onTick_alt)

theorem onTick_due_advance_retry_witness:
  "onTick \<lparr>rep = \<lparr>conf = \<lparr>Disabled = False, Leader = True\<rparr>, cluster = None, lastReport = 0\<rparr>,
           next_t = 3600000000000, reports = []\<rparr>
      60000000000 (\<lambda>_. False) (\<lambda>_. None)
     = \<lparr>rep = \<lparr>conf = \<lparr>Disabled = False, Leader = True\<rparr>, cluster = None, lastReport = 0\<rparr>,
        next_t = 3600000000000, reports = []\<rparr>
   \<and> onTick \<lparr>rep = \<lparr>conf = \<lparr>Disabled = False, Leader = True\<rparr>, cluster = None, lastReport = 0\<rparr>,
           next_t = 3600000000000, reports = []\<rparr>
      3600000000000 (\<lambda>_. False) (\<lambda>_. None)
     = \<lparr>rep = \<lparr>conf = \<lparr>Disabled = False, Leader = True\<rparr>, cluster = None,
               lastReport = 3600000000000\<rparr>,
        next_t = 7200000000000, reports = [(3600000000000, None)]\<rparr>
   \<and> reports (onTick (onTick
        \<lparr>rep = \<lparr>conf = \<lparr>Disabled = False, Leader = True\<rparr>, cluster = None, lastReport = 0\<rparr>,
          next_t = 3600000000000, reports = []\<rparr>
        3600000000000 (\<lambda>_. False) (\<lambda>n. Some (ErrSend n)))
        3660000000000 (\<lambda>_. False) (\<lambda>_. None))
     = [(3600000000000, Some (MultiError [ErrSend 0, ErrSend 1, ErrSend 2, ErrSend 3, ErrSend 4])),
        (3600000000000, None)]"
proof -
  have ok: "reportUsage (\<lambda>_. False) (\<lambda>_. None) = None"
    by (simp add: reportUsage_def reportUsage_loop_unfold)
  have failed: "reportUsage (\<lambda>_. False) (\<lambda>n. Some (ErrSend n))
      = Some (MultiError [ErrSend 0, ErrSend 1, ErrSend 2, ErrSend 3, ErrSend 4])"
    by (simp add: reportUsage_def reportUsage_loop_unfold multierror_Err_def)
  let ?s = "\<lparr>rep = \<lparr>conf = \<lparr>Disabled = False, Leader = True\<rparr>, cluster = None,
                    lastReport = 0\<rparr>,
             next_t = 3600000000000, reports = []\<rparr>"
  have a: "onTick ?s 60000000000 (\<lambda>_. False) (\<lambda>_. None) = ?s"
    using onTick_due_advance_retry
        [where s = ?s and now = 60000000000 and cancelled = "\<lambda>_. False" and send = "\<lambda>_. None"]
    by (simp add: reportInterval_def)
  have b: "onTick ?s 3600000000000 (\<lambda>_. False) (\<lambda>_. None)
      = \<lparr>rep = \<lparr>conf = \<lparr>Disabled = False, Leader = True\<rparr>, cluster = None,
               lastReport = 3600000000000\<rparr>,
        next_t = 7200000000000, reports = [(3600000000000, None)]\<rparr>"
    using onTick_due_advance_retry
        [where s = ?s and now = 3600000000000 and cancelled = "\<lambda>_. False"
           and send = "\<lambda>_. None"]
    by (simp add: ok reportInterval_def)
  have hyp: "reportInterval \<le> 3600000000000 - lastReport (rep ?s)"
      "(3600000000000 :: time) \<le> 3660000000000"
    by (simp_all add: reportInterval_def)
  have "reports (onTick (onTick ?s 3600000000000 (\<lambda>_. False) (\<lambda>n. Some (ErrSend n)))
        3660000000000 (\<lambda>_. False) (\<lambda>_. None))
     = reports ?s @
       [(next_t ?s, Some (MultiError [ErrSend 0, ErrSend 1, ErrSend 2, ErrSend 3, ErrSend 4])),
        (next_t ?s, reportUsage (\<lambda>_. False) (\<lambda>_. None))]"
    using onTick_due_advance_retry
        [where s = ?s and now = 3600000000000 and cancelled = "\<lambda>_. False"
           and send = "\<lambda>n. Some (ErrSend n)"
           and err = "MultiError [ErrSend 0, ErrSend 1, ErrSend 2, ErrSend 3, ErrSend 4]"
           and now' = 3660000000000 and cancelled' = "\<lambda>_. False" and send' = "\<lambda>_. None"]
      failed hyp
    by blast
  then have c: "reports (onTick (onTick ?s 3600000000000 (\<lambda>_. False) (\<lambda>n. Some (ErrSend n)))
        3660000000000 (\<lambda>_. False) (\<lambda>_. None))
     = [(3600000000000, Some (MultiError [ErrSend 0, ErrSend 1, ErrSend 2, ErrSend 3, ErrSend 4])),
        (3600000000000, None)]"
    by (simp only: ok loop_state.simps append_Nil)
  show ?thesis
    using a b c by blast
qed

section \<open>The start of the service\<close>

lemma init_keeps_lastReport:
  "init fuel e r w = (Some r', w') \<Longrightarrow> lastReport r' = lastReport r"
  by (auto simp: init_def split: if_splits prod.splits option.splits)

text \<open>
  C9. When the resolution returns a seed, \<open>running\<close> computes \<open>next\<close> as
  \<open>nextReport(reportInterval, cluster.CreatedAt, now)\<close> and enters the loop with it; a
  reporter that has never reported (\<open>lastReport\<close> is the zero instant) gets
  \<open>lastReport = next - reportInterval\<close>, and then a tick is due exactly when it is not
  before \<open>next\<close>: the first due check fires at \<open>next\<close>.
\<close>

theorem running_start_seeds_schedule:
  assumes "init fuel e r w = (Some r', w')" and "cluster r' = Some c"
    and "nextReport reportInterval (CreatedAt c) (timeNow e (clock w')) = Some nx"
  shows "running fuel e r w []
           = (Selecting \<lparr>rep = (if lastReport r = 0 then r'\<lparr>lastReport := nx - reportInterval\<rparr>
                                 else r'),
                         next_t = nx, reports = []\<rparr>, w')
       \<and> (lastReport r = 0 \<longrightarrow>
            (reports (onTick \<lparr>rep = r'\<lparr>lastReport := nx - reportInterval\<rparr>, next_t = nx,
                              reports = []\<rparr> now cancelled send) \<noteq> []
               \<longleftrightarrow> nx \<le> now))"
proof -
  have l: "lastReport r' = lastReport r"
    using assms(1) by (rule init_keeps_lastReport)
  have run: "running fuel e r w []
           = (Selecting \<lparr>rep = (if lastReport r = 0 then r'\<lparr>lastReport := nx - reportInterval\<rparr>
                                 else r'),
                         next_t = nx, reports = []\<rparr>, w')"
    using assms l
    by (simp add: running_def time_IsZero_def time_Add_def int64_neg_reportInterval)
  have due: "reports (onTick \<lparr>rep = r'\<lparr>lastReport := nx - reportInterval\<rparr>, next_t = nx,
                              reports = []\<rparr> now cancelled send) \<noteq> [] \<longleftrightarrow> nx \<le> now"
    by (auto simp: onTick_alt split: option.splits)
  show ?thesis
    using run due by simp
qed

theorem running_start_seeds_schedule_witness:
  "running 1 \<lparr>ctxDone = (\<lambda>_. False), fault = (\<lambda>_. False), newUUID = (\<lambda>_. ''xyz''),
              timeNow = (\<lambda>_. 5400000000000), version = ''v1''\<rparr>
      \<lparr>conf = \<lparr>Disabled = False, Leader = False\<rparr>, cluster = None, lastReport = 0\<rparr>
      \<lparr>kv = None,
        blob = Some (Encoded \<lparr>UID = ''abc'', PrometheusVersion = ''v0'', CreatedAt = 0\<rparr>),
        calls = []\<rparr> []
   = (Selecting
        \<lparr>rep = \<lparr>conf = \<lparr>Disabled = False, Leader = False\<rparr>,
                 cluster = Some \<lparr>UID = ''abc'', PrometheusVersion = ''v0'', CreatedAt = 0\<rparr>,
                 lastReport = 3600000000000\<rparr>,
          next_t = 7200000000000, reports = []\<rparr>,
      \<lparr>kv = None,
        blob = Some (Encoded \<lparr>UID = ''abc'', PrometheusVersion = ''v0'', CreatedAt = 0\<rparr>),
        calls = [CallGet (Inr \<lparr>UID = ''abc'', PrometheusVersion = ''v0'', CreatedAt = 0\<rparr>)]\<rparr>)"
proof -
  let ?e = "\<lparr>ctxDone = (\<lambda>_. False), fault = (\<lambda>_. False), newUUID = (\<lambda>_. ''xyz''),
              timeNow = (\<lambda>_. 5400000000000), version = ''v1''\<rparr>"
  let ?c = "\<lparr>UID = ''abc'', PrometheusVersion = ''v0'', CreatedAt = 0\<rparr>"
  let ?r = "\<lparr>conf = \<lparr>Disabled = False, Leader = False\<rparr>, cluster = None, lastReport = 0\<rparr>"
  let ?w = "\<lparr>kv = None, blob = Some (Encoded ?c), calls = []\<rparr>"
  let ?w' = "\<lparr>kv = None, blob = Some (Encoded ?c), calls = [CallGet (Inr ?c)]\<rparr>"
  have i: "init 1 ?e ?r ?w = (Some (?r\<lparr>cluster := Some ?c\<rparr>), ?w')"
    using fetchSeed_found [of ?w ?c ?e 0 None]
    by (simp add: init_def clock_def logCall_def)
  have n: "nextReport reportInterval (CreatedAt ?c) (timeNow ?e (clock ?w')) = Some 7200000000000"
    by code_simp
  show ?thesis
    using running_start_seeds_schedule [OF i _ n] by (simp add: reportInterval_def)
qed

section \<open>Properties of the schedule\<close>

subsection \<open>Rounding to \<open>float64\<close>\<close>

lemma bitlen_pos:
  "0 < n \<Longrightarrow> 1 \<le> bitlen n \<and> 2 ^ nat (bitlen n - 1) \<le> n \<and> n < 2 ^ nat (bitlen n)"
proof (induction n rule: bitlen.induct)
  case (1 n)
  show ?case
  proof (cases "n div 2 \<le> 0")
    case True
    then have "n = 1" using "1.prems" by linarith
    then show ?thesis
      by (simp add: bitlen.simps [of 1] bitlen.simps [of 0])
  next
    case False
    then have ih: "1 \<le> bitlen (n div 2)" "2 ^ nat (bitlen (n div 2) - 1) \<le> n div 2"
        "n div 2 < 2 ^ nat (bitlen (n div 2))"
      using "1.IH" "1.prems" by simp_all
    have b: "bitlen n = 1 + bitlen (n div 2)"
      using "1.prems" by (subst bitlen.simps) simp
    have e1: "nat (bitlen n - 1) = Suc (nat (bitlen (n div 2) - 1))"
      using ih(1) b by simp
    have e2: "nat (bitlen n) = Suc (nat (bitlen (n div 2)))"
      using ih(1) b by simp
    have "2 * 2 ^ nat (bitlen (n div 2) - 1) \<le> n"
      using ih(2) by linarith
    moreover have "n < 2 * 2 ^ nat (bitlen (n div 2))"
      using ih(3) by linarith
    ultimately show ?thesis
      using ih(1) b unfolding e1 e2 by simp
  qed
qed

lemma bitlen_powi:
  assumes "0 < n"
  shows "(2::rat) powi (bitlen n - 1) \<le> of_int n" and "of_int n < (2::rat) powi (bitlen n)"
proof -
  have b: "1 \<le> bitlen n" "2 ^ nat (bitlen n - 1) \<le> n" "n < 2 ^ nat (bitlen n)"
    using bitlen_pos [OF assms] by simp_all
  have "(2::rat) powi (bitlen n - 1) = 2 ^ nat (bitlen n - 1)"
    using b(1) by (simp add: power_int_def)
  also have "\<dots> = of_int (2 ^ nat (bitlen n - 1))"
    by simp
  also have "\<dots> \<le> of_int n"
    using b(2) by (simp only: of_int_le_iff)
  finally show "(2::rat) powi (bitlen n - 1) \<le> of_int n" .
  have "(of_int n :: rat) < of_int (2 ^ nat (bitlen n))"
    using b(3) by (simp only: of_int_less_iff)
  also have "\<dots> = 2 powi (bitlen n)"
    using b(1) by (simp add: power_int_def)
  finally show "of_int n < (2::rat) powi (bitlen n)" .
qed

lemma ilog2_bounds:
  assumes "0 < x"
  shows "2 powi (ilog2 x) \<le> x" and "x < 2 powi (ilog2 x + 1)"
proof -
  obtain p q where pq: "quotient_of x = (p, q)"
    by (cases "quotient_of x")
  have q: "0 < q"
    using pq by (rule quotient_of_denom_pos)
  have x: "x = of_int p / of_int q"
    using pq by (rule quotient_of_div)
  have p: "0 < p"
    using assms q unfolding x by (simp add: zero_less_divide_iff)
  let ?k = "bitlen p - bitlen q"
  have il: "ilog2 x = (if 2 powi ?k \<le> x then ?k else ?k - 1)"
    by (simp add: ilog2_def pq Let_def)
  have up: "x < 2 powi (?k + 1)"
  proof -
    have "of_int p < (2::rat) powi (bitlen p)"
      using p by (rule bitlen_powi)
    moreover have "(2::rat) powi (bitlen q - 1) \<le> of_int q"
      using q by (rule bitlen_powi)
    moreover have "(0::rat) < 2 powi (bitlen q - 1)"
      by simp
    ultimately have "of_int p / of_int q < (2::rat) powi (bitlen p) / 2 powi (bitlen q - 1)"
      using p q by (intro frac_less) simp_all
    also have "\<dots> = 2 powi (bitlen p - (bitlen q - 1))"
      by (rule power_int_diff [symmetric]) simp
    also have "bitlen p - (bitlen q - 1) = ?k + 1"
      by simp
    finally show ?thesis unfolding x .
  qed
  have lo: "2 powi (?k - 1) \<le> x"
  proof -
    have "(2::rat) powi (bitlen p - 1) \<le> of_int p"
      using p by (rule bitlen_powi)
    moreover have "of_int q < (2::rat) powi (bitlen q)"
      using q by (rule bitlen_powi)
    ultimately have "(2::rat) powi (bitlen p - 1) / 2 powi (bitlen q) \<le> of_int p / of_int q"
      using p q by (intro frac_le) simp_all
    moreover have "(2::rat) powi (bitlen p - 1) / 2 powi (bitlen q) = 2 powi (bitlen p - 1 - bitlen q)"
      by (rule power_int_diff [symmetric]) simp
    moreover have "bitlen p - 1 - bitlen q = ?k - 1"
      by simp
    ultimately show ?thesis unfolding x by simp
  qed
  show "2 powi (ilog2 x) \<le> x"
    using lo by (simp add: il)
  show "x < 2 powi (ilog2 x + 1)"
    using up unfolding il by (auto simp: not_le)
qed

subsection \<open>The rounded quotient has the exact ceiling below \<open>2 ^ 53\<close>\<close>

lemma round_half_even_ge: "of_int N \<le> r \<Longrightarrow> N \<le> round_half_even r"
proof -
  assume "of_int N \<le> r"
  then have "N \<le> \<lfloor>r\<rfloor>" by (simp add: le_floor_iff)
  then show ?thesis
    by (auto simp: round_half_even_def Let_def)
qed

lemma round_half_even_le: "r \<le> of_int N \<Longrightarrow> round_half_even r \<le> N"
proof -
  assume a: "r \<le> of_int N"
  then have f: "\<lfloor>r\<rfloor> \<le> N" by (simp add: floor_le_iff) 
  show ?thesis
  proof (cases "r = of_int \<lfloor>r\<rfloor>")
    case True
    then have "r - of_int \<lfloor>r\<rfloor> = 0" by simp
    then show ?thesis using f by (simp add: round_half_even_def Let_def)
  next
    case False
    then have "of_int \<lfloor>r\<rfloor> < r" by (metis of_int_floor_le order_less_le)
    then have "of_int \<lfloor>r\<rfloor> < (of_int N :: rat)" using a by linarith
    then have "\<lfloor>r\<rfloor> < N" by (simp only: of_int_less_iff)
    then show ?thesis by (auto simp: round_half_even_def Let_def)
  qed
qed

lemma round_half_even_gt_half: "of_int N + 1 / 2 < r \<Longrightarrow> N + 1 \<le> round_half_even r"
proof -
  assume a: "of_int N + 1 / 2 < r"
  then have f: "N \<le> \<lfloor>r\<rfloor>" by (simp add: le_floor_iff)
  show ?thesis
  proof (cases "N = \<lfloor>r\<rfloor>")
    case True
    then have "1 / 2 < r - of_int \<lfloor>r\<rfloor>" using a by simp
    then show ?thesis using True by (simp add: round_half_even_def Let_def)
  next
    case False
    then have "N + 1 \<le> \<lfloor>r\<rfloor>" using f by simp
    then show ?thesis by (auto simp: round_half_even_def Let_def)
  qed
qed

lemma ceiling_round_binary64_quotient:
  fixes d i :: int
  assumes d: "0 < d" and i: "0 < i" and small: "d < 2 ^ 53"
  shows "\<lceil>round_binary64 (of_int d / of_int i)\<rceil> = \<lceil>(of_int d / of_int i :: rat)\<rceil>"
proof -
  define x :: rat where "x = of_int d / of_int i"
  define c where "c = \<lceil>x\<rceil>"
  have x: "0 < x" using d i by (simp add: x_def)
  have xi: "x * of_int i = of_int d"
    using i by (simp add: x_def)
  define e0 where "e0 = ilog2 x"
  have lo: "2 powi e0 \<le> x" and hi: "x < 2 powi (e0 + 1)"
    unfolding e0_def using ilog2_bounds [OF x] by simp_all
  have d53: "(of_int d :: rat) < 2 powi 53"
  proof -
    have "(of_int d :: rat) < of_int (2 ^ 53)"
      using small by (simp only: of_int_less_iff)
    then show ?thesis by simp
  qed
  have xd: "x \<le> of_int d"
  proof -
    have "x * 1 \<le> x * of_int i"
      using x i by (intro mult_left_mono) simp_all
    then show ?thesis using xi by simp
  qed
  have e0: "e0 \<le> 52"
  proof (rule ccontr)
    assume "\<not> e0 \<le> 52"
    then have "53 \<le> e0" by simp
    then have "(2::rat) powi 53 \<le> 2 powi e0"
      by (intro power_int_increasing) simp_all
    then show False using lo xd d53 by linarith
  qed
  define n where "n = nat (52 - e0)"
  define s :: int where "s = 2 ^ n"
  define S :: rat where "S = of_int s"
  have S: "0 < S" by (simp add: S_def s_def)
  have S2: "S = 2 powi (int n)"
    by (simp add: S_def s_def)
  have pe: "(2::rat) powi (e0 - 52) = inverse S"
  proof -
    have "(2::rat) powi (e0 - 52) = 2 powi (- int n)"
      using e0 by (simp add: n_def)
    also have "\<dots> = inverse (2 powi (int n))"
      by (rule power_int_minus)
    finally show ?thesis by (simp only: S2)
  qed
  define m where "m = round_half_even (x * S)"
  have r: "round_binary64 x = of_int m / S"
  proof -
    have "x \<noteq> 0" "\<bar>x\<bar> = x" "sgn x = 1"
      using x by simp_all
    then have "round_binary64 x
        = 1 * of_int (round_half_even (x / 2 powi (ilog2 x - 52))) * 2 powi (ilog2 x - 52)"
      by (simp only: round_binary64_def Let_def if_False)
    also have "\<dots> = of_int (round_half_even (x / inverse S)) * inverse S"
      by (simp only: e0_def [symmetric] pe mult_1)
    also have "x / inverse S = x * S"
      by (simp add: divide_inverse)
    finally show ?thesis
      by (simp only: m_def divide_inverse)
  qed
  have is2: "of_int i < 2 * S"
  proof -
    have "(2::rat) powi e0 * of_int i \<le> x * of_int i"
      using lo i by (intro mult_right_mono) simp_all
    then have "(2::rat) powi e0 * of_int i < 2 powi 53"
      using d53 xi by simp
    moreover have "(2::rat) powi 53 = 2 powi e0 * (2 * S)"
    proof -
      have "(53::int) = e0 + (1 + int n)"
        using e0 by (simp add: n_def)
      then have "(2::rat) powi 53 = 2 powi (e0 + (1 + int n))"
        by (simp only:)
      also have "\<dots> = 2 powi e0 * 2 powi (1 + int n)"
        by (rule power_int_add) simp
      also have "(2::rat) powi (1 + int n) = 2 powi 1 * 2 powi (int n)"
        by (rule power_int_add) simp
      finally show ?thesis by (simp only: S2 power_int_1_right)
    qed
    ultimately have "(2::rat) powi e0 * of_int i < 2 powi e0 * (2 * S)"
      by (simp only:)
    moreover have "(0::rat) < 2 powi e0"
      by simp
    ultimately show ?thesis
      by (simp only: mult_less_cancel_left_pos)
  qed
  have upper: "of_int m / S \<le> of_int c"
  proof -
    have "x \<le> of_int c"
      unfolding c_def by (rule le_of_int_ceiling)
    then have "x * S \<le> of_int c * S"
      using S by (intro mult_right_mono) simp_all
    then have "x * S \<le> of_int (c * s)"
      by (simp add: S_def)
    then have "m \<le> c * s"
      unfolding m_def by (rule round_half_even_le)
    then have "(of_int m :: rat) \<le> of_int (c * s)"
      by (simp only: of_int_le_iff)
    then have "(of_int m :: rat) \<le> of_int c * S"
      by (simp add: S_def)
    then show ?thesis
      using S by (simp add: pos_divide_le_eq)
  qed
  have lower: "of_int (c - 1) < of_int m / S"
  proof (cases "x = of_int c")
    case True
    then have "of_int (c * s) \<le> x * S"
      by (simp add: S_def)
    then have "c * s \<le> m"
      unfolding m_def by (rule round_half_even_ge)
    then have "(of_int (c * s) :: rat) \<le> of_int m"
      by (simp only: of_int_le_iff)
    then have "(of_int c :: rat) * S \<le> of_int m"
      by (simp add: S_def)
    then have "(of_int c :: rat) \<le> of_int m / S"
      using S by (simp add: pos_le_divide_eq)
    then show ?thesis by simp
  next
    case False
    have "of_int c - 1 < x"
      unfolding c_def using of_int_ceiling_diff_one_le [of x] False [unfolded c_def]
      by (metis ceiling_correct)
    then have cx: "of_int (c - 1) < x"
      by simp
    then have "of_int (c - 1) * of_int i < x * of_int i"
      using i by (simp add: mult_less_cancel_right_pos)
    then have "(of_int ((c - 1) * i) :: rat) < of_int d"
      by (simp add: xi)
    then have "(c - 1) * i < d"
      by (simp only: of_int_less_iff)
    then have "(c - 1) * i + 1 \<le> d"
      by simp
    then have "(of_int ((c - 1) * i + 1) :: rat) \<le> of_int d"
      by (simp only: of_int_le_iff)
    then have "(of_int (c - 1) * of_int i + 1 :: rat) \<le> x * of_int i"
      by (simp add: xi)
    then have "(of_int (c - 1) * of_int i + 1) * S \<le> (x * of_int i) * S"
      using S by (intro mult_right_mono) simp_all
    then have a: "of_int (c - 1) * S * of_int i + S \<le> (x * S) * of_int i"
      by (simp add: algebra_simps)
    have b: "of_int i / 2 < S"
      using is2 by simp
    have "(of_int (c - 1) * S + 1 / 2) * of_int i < (x * S) * of_int i"
      using a b by (simp add: algebra_simps)
    then have "of_int (c - 1) * S + 1 / 2 < x * S"
      using i by (simp only: mult_less_cancel_right_pos of_int_0_less_iff)
    then have "of_int ((c - 1) * s) + 1 / 2 < x * S"
      by (simp add: S_def)
    then have "(c - 1) * s + 1 \<le> m"
      unfolding m_def by (rule round_half_even_gt_half)
    then have "(of_int ((c - 1) * s + 1) :: rat) \<le> of_int m"
      by (simp only: of_int_le_iff)
    then have "(of_int (c - 1) :: rat) * S < of_int m"
      by (simp add: S_def)
    then show ?thesis
      using S by (simp add: pos_less_divide_eq)
  qed
  have "\<lceil>(of_int m / S :: rat)\<rceil> = c"
    using upper lower by (intro ceiling_unique) simp_all
  then show ?thesis
    by (simp only: r [symmetric] x_def c_def)
qed

lemma round_half_even_of_int: "round_half_even (of_int N) = N"
  by (simp add: round_half_even_def)

lemma float64_of_int64_exact:
  assumes "0 \<le> n" and "n < 2 ^ 53"
  shows "float64_of_int64 n = of_int n"
proof (cases "n = 0")
  case True
  then show ?thesis by (simp add: float64_of_int64_def round_binary64_def)
next
  case False
  then have n: "0 < n" using assms(1) by simp
  define x :: rat where "x = of_int n"
  have x: "0 < x" using n by (simp add: x_def)
  define e0 where "e0 = ilog2 x"
  have lo: "2 powi e0 \<le> x"
    unfolding e0_def using ilog2_bounds [OF x] by simp
  have "(of_int n :: rat) < of_int (2 ^ 53)"
    using assms(2) by (simp only: of_int_less_iff)
  then have x53: "x < 2 powi 53"
    by (simp add: x_def)
  have e0: "e0 \<le> 52"
  proof (rule ccontr)
    assume "\<not> e0 \<le> 52"
    then have "53 \<le> e0" by simp
    then have "(2::rat) powi 53 \<le> 2 powi e0"
      by (intro power_int_increasing) simp_all
    then show False using lo x53 by linarith
  qed
  define k where "k = nat (52 - e0)"
  define S :: rat where "S = of_int (2 ^ k)"
  have S: "0 < S" by (simp add: S_def)
  have S2: "S = 2 powi (int k)"
    by (simp add: S_def)
  have pe: "(2::rat) powi (e0 - 52) = inverse S"
  proof -
    have "(2::rat) powi (e0 - 52) = 2 powi (- int k)"
      using e0 by (simp add: k_def)
    also have "\<dots> = inverse (2 powi (int k))"
      by (rule power_int_minus)
    finally show ?thesis by (simp only: S2)
  qed
  have "x \<noteq> 0" "\<bar>x\<bar> = x" "sgn x = 1"
    using x by simp_all
  then have "round_binary64 x
      = 1 * of_int (round_half_even (x / 2 powi (ilog2 x - 52))) * 2 powi (ilog2 x - 52)"
    by (simp only: round_binary64_def Let_def if_False)
  also have "\<dots> = of_int (round_half_even (x / inverse S)) * inverse S"
    by (simp only: e0_def [symmetric] pe mult_1)
  also have "x / inverse S = of_int (n * 2 ^ k)"
    by (simp add: divide_inverse x_def S_def)
  also have "round_half_even (of_int (n * 2 ^ k)) = n * 2 ^ k"
    by (rule round_half_even_of_int)
  also have "of_int (n * 2 ^ k) * inverse S = x"
    using S by (simp add: x_def S_def)
  finally show ?thesis
    by (simp add: float64_of_int64_def x_def)
qed

lemma int64_wrap_id: "- (2 ^ 63) \<le> z \<Longrightarrow> z < 2 ^ 63 \<Longrightarrow> int64_wrap z = z"
  by (simp add: int64_wrap_def)

text \<open>
  While the age of the cluster and the interval are below \<open>2 ^ 53\<close> nanoseconds (about 104
  days), no rounding reaches the result: \<open>nextReport\<close> returns the first instant of the
  form \<open>createdAt + k * interval\<close> that is not before \<open>now\<close>.
\<close>

lemma nextReport_exact_below_2_53:
  assumes "0 < interval" and "interval < 2 ^ 53"
    and "createdAt \<le> now" and "now - createdAt < 2 ^ 53"
  shows "\<exists>k. nextReport interval createdAt now = Some (createdAt + k * interval)
           \<and> 0 \<le> k \<and> now \<le> createdAt + k * interval
           \<and> createdAt + k * interval < now + interval"
proof -
  define d where "d = now - createdAt"
  have d: "0 \<le> d" "d < 2 ^ 53"
    using assms(3,4) by (simp_all add: d_def)
  define c where "c = \<lceil>(of_int d / of_int interval :: rat)\<rceil>"
  have sub: "time_Sub now createdAt = d"
    using d by (simp add: time_Sub_def d_def [symmetric] maxInt64_def minInt64_def)
  have fd: "float64_of_int64 d = of_int d"
    using d by (rule float64_of_int64_exact)
  have fi: "float64_of_int64 interval = of_int interval"
    using assms(1,2) by (intro float64_of_int64_exact) simp_all
  have ceil: "\<lceil>round_binary64 (of_int d / of_int interval)\<rceil> = c"
  proof (cases "d = 0")
    case True
    then show ?thesis by (simp add: c_def round_binary64_def)
  next
    case False
    then have "0 < d" using d(1) by simp
    then show ?thesis
      unfolding c_def using assms(1) d(2) by (rule ceiling_round_binary64_quotient)
  qed
  have c_ge: "of_int d \<le> (of_int c :: rat) * of_int interval"
  proof -
    have "(of_int d / of_int interval :: rat) \<le> of_int c"
      unfolding c_def by (rule le_of_int_ceiling)
    then show ?thesis
      using assms(1) by (simp add: pos_divide_le_eq)
  qed
  have c_lt: "(of_int c :: rat) * of_int interval < of_int d + of_int interval"
  proof -
    have "(of_int c :: rat) < of_int d / of_int interval + 1"
      unfolding c_def using ceiling_correct [of "of_int d / of_int interval :: rat"] by linarith
    then have "(of_int c :: rat) * of_int interval < (of_int d / of_int interval + 1) * of_int interval"
      using assms(1) by (simp only: mult_less_cancel_right_pos of_int_0_less_iff)
    then show ?thesis
      using assms(1) by (simp add: distrib_right)
  qed
  have ge: "d \<le> c * interval"
  proof -
    have "(of_int d :: rat) \<le> of_int (c * interval)"
      using c_ge by simp
    then show ?thesis by (simp only: of_int_le_iff)
  qed
  have lt: "c * interval < d + interval"
  proof -
    have "(of_int (c * interval) :: rat) < of_int (d + interval)"
      using c_lt by simp
    then show ?thesis by (simp only: of_int_less_iff)
  qed
  have c0: "0 \<le> c"
  proof -
    have "(0::rat) \<le> of_int d / of_int interval"
      using d(1) assms(1) by simp
    then show ?thesis
      unfolding c_def by (simp add: ceiling_mono [of 0, simplified])
  qed
  have c_le: "c \<le> d"
  proof -
    have "c * 1 \<le> c * interval"
      using c0 assms(1) by (intro mult_left_mono) simp_all
    have "(of_int d / of_int interval :: rat) \<le> of_int d"
    proof -
      have "(of_int d :: rat) * 1 \<le> of_int d * of_int interval"
        using d(1) assms(1) by (intro mult_left_mono) simp_all
      then show ?thesis
        using assms(1) by (simp add: pos_divide_le_eq)
    qed
    then show ?thesis
      unfolding c_def by (simp add: ceiling_le_iff)
  qed
  have conv: "int64_of_float64 (math_Ceil (round_binary64 (of_int d / of_int interval))) = Some c"
    using c0 c_le d(2)
    by (simp add: int64_of_float64_def math_Ceil_def ceil Let_def minInt64_def maxInt64_def)
  have mul: "int64_mul c interval = c * interval"
  proof -
    have "0 \<le> c * interval" using c0 assms(1) by simp
    moreover have "c * interval < 2 ^ 63" using lt d(2) assms(2) by simp
    ultimately show ?thesis
      unfolding int64_mul_def by (intro int64_wrap_id) simp_all
  qed
  have nz: "(of_int interval :: rat) \<noteq> 0"
    using assms(1) by simp
  have "nextReport interval createdAt now = Some (createdAt + c * interval)"
    using assms(1) by (simp add: nextReport_def sub fd fi float64_div_def conv mul time_Add_def)
  then show ?thesis
    using c0 ge lt by (auto simp: d_def intro!: exI [of _ c])
qed

subsection \<open>The schedule at a large age\<close>

text \<open>
  C2, at a failing input. With the interval of one hour, a cluster created at instant \<open>0\<close>
  and \<open>now\<close> one nanosecond after 4096 intervals, the conversion of the age to
  \<open>float64\<close> drops the nanosecond, the quotient is exactly 4096, and \<open>nextReport\<close>
  returns the instant of 4096 intervals, which is before \<open>now\<close>.
\<close>

theorem nextReport_before_now:
  "float64_of_int64 (time_Sub 14745600000000001 0) = 14745600000000000
   \<and> nextReport 3600000000000 0 14745600000000001 = Some 14745600000000000
   \<and> (14745600000000000 :: time) < 14745600000000001"
  by code_simp

end
